theory Spec2Isabelle
  imports Main "HOL-Library.Word"
begin

section \<open>Characters and the percent codec\<close>

text \<open>
  A \<open>std::string\<close> is a sequence of bytes: \<^typ>\<open>string\<close>.  The character classification
  functions of \<open><cctype>\<close> are taken in the default "C" locale, where only ASCII letters and
  digits are alphanumeric.
\<close>

definition isdigit :: "char \<Rightarrow> bool" where
  "isdigit c = (48 \<le> (of_char c :: nat) \<and> (of_char c :: nat) \<le> 57)"

definition isupper :: "char \<Rightarrow> bool" where
  "isupper c = (65 \<le> (of_char c :: nat) \<and> (of_char c :: nat) \<le> 90)"

definition islower :: "char \<Rightarrow> bool" where
  "islower c = (97 \<le> (of_char c :: nat) \<and> (of_char c :: nat) \<le> 122)"

definition isalnum :: "char \<Rightarrow> bool" where
  "isalnum c = (isdigit c \<or> isupper c \<or> islower c)"

definition isxdigit :: "char \<Rightarrow> bool" where
  "isxdigit c = (isdigit c
     \<or> (65 \<le> (of_char c :: nat) \<and> (of_char c :: nat) \<le> 70)
     \<or> (97 \<le> (of_char c :: nat) \<and> (of_char c :: nat) \<le> 102))"

definition toupper :: "char \<Rightarrow> char" where
  "toupper c = (if islower c then char_of ((of_char c :: nat) - 32) else c)"

definition tolower :: "char \<Rightarrow> char" where
  "tolower c = (if isupper c then char_of ((of_char c :: nat) + 32) else c)"

definition hex_chars :: string where
  "hex_chars = ''0123456789ABCDEF''"

text \<open>The raw string literal of \<open>percent_encode\<close>: all 32 ASCII punctuation characters.\<close>

definition special_chars :: string where
  "special_chars =
     [CHR ''!'', CHR 0x22, CHR ''#'', CHR ''$'', CHR ''%'', CHR ''&'', CHR 0x27, CHR ''('',
      CHR '')'', CHR ''*'', CHR ''+'', CHR '','', CHR ''-'', CHR ''.'', CHR ''/'', CHR '':'',
      CHR '';'', CHR ''<'', CHR ''='', CHR ''>'', CHR ''?'', CHR ''@'', CHR ''['', CHR 0x5C,
      CHR '']'', CHR ''^'', CHR ''_'', CHR ''{'', CHR ''|'', CHR ''}'', CHR ''~'', CHR 0x60]"

text \<open>
  \<open>percent_encode\<close>: the range-for loop over the bytes of \<open>str\<close>, pushing onto \<open>encoded\<close>.
  \<open>ch >> 4\<close> and \<open>ch & 0x0F\<close> on an \<open>unsigned char\<close> are \<open>div 16\<close> and \<open>mod 16\<close>.
\<close>

definition percent_encode_step :: "string \<Rightarrow> char \<Rightarrow> string" where
  "percent_encode_step encoded ch =
     (if isalnum ch \<or> ch \<in> set special_chars then encoded @ [ch]
      else encoded @ [CHR ''%'', hex_chars ! ((of_char ch :: nat) div 16),
                      hex_chars ! ((of_char ch :: nat) mod 16)])"

definition percent_encode :: "string \<Rightarrow> string" where
  "percent_encode str = foldl percent_encode_step [] str"

text \<open>
  The inner loop of \<open>percent_decode\<close> over the two hex digits: \<open>ch <<= 4; ch |= value\<close>,
  twice, on a \<open>char\<close> (the result is taken modulo 256 by \<^const>\<open>char_of\<close>).
\<close>

definition hex_value :: "char \<Rightarrow> nat" where
  "hex_value hex = (if 48 \<le> (of_char hex :: nat) \<and> (of_char hex :: nat) \<le> 57 then (of_char hex :: nat) - 48
                    else (of_char (toupper hex) :: nat) - 65 + 10)"

definition decode_escape :: "char \<Rightarrow> char \<Rightarrow> char" where
  "decode_escape h1 h2 =
     char_of (or (push_bit 4 (or (push_bit 4 (0::nat)) (hex_value h1))) (hex_value h2))"

text \<open>\<open>percent_decode\<close>: the index loop \<open>for (size_t i = 0; i < str.size();)\<close>.\<close>

function percent_decode_loop :: "string \<Rightarrow> nat \<Rightarrow> string \<Rightarrow> string" where
  "percent_decode_loop str i decoded =
     (if i < length str then
        (if str ! i = CHR ''%'' \<and> i + 2 < length str
            \<and> isxdigit (str ! (i + 1)) \<and> isxdigit (str ! (i + 2))
         then percent_decode_loop str (i + 3)
                (decoded @ [decode_escape (str ! (i + 1)) (str ! (i + 2))])
         else percent_decode_loop str (i + 1) (decoded @ [str ! i]))
      else decoded)"
  by pat_completeness auto
termination
  by (relation "measure (\<lambda>(str, i, decoded). length str - i)") auto

definition percent_decode :: "string \<Rightarrow> string" where
  "percent_decode str = percent_decode_loop str 0 []"

section \<open>Separator detection\<close>

text \<open>
  \<open>std::string_view::find\<close> returns the index of the first occurrence, or \<open>npos\<close>, the
  largest \<open>size_t\<close> (64 bits here), when there is none.
\<close>

definition npos :: nat where
  "npos = 2 ^ 64 - 1"

fun find_from :: "char \<Rightarrow> string \<Rightarrow> nat \<Rightarrow> nat" where
  "find_from c [] i = npos"
| "find_from c (x # xs) i = (if x = c then i else find_from c xs (Suc i))"

definition find_char :: "string \<Rightarrow> char \<Rightarrow> nat" where
  "find_char s c = find_from c s 0"

definition find_separator :: "string \<Rightarrow> char" where
  "find_separator path =
     (if find_char path CHR ''/'' \<le> find_char path (CHR 0x5C) then CHR ''/'' else CHR 0x5C)"

section \<open>A model of the regular-expression engine\<close>

text \<open>
  Modelled from the spec: the regular-expression facility (\<open>std::regex\<close> with the
  ECMAScript grammar, \<open>std::regex_match\<close>, \<open>std::sregex_iterator\<close>) is a collaborator
  outside the repository, which "compiles a pattern string with case-sensitivity flags,
  executes full-string match, exposes capturing-group text".  The model is the ECMA-262
  backtracking semantics: a pattern is parsed into a syntax tree, and matching a tree
  against the rest of the input lists every way to continue, in the order a backtracking
  matcher tries them.  It covers ordinary characters, \<open>.\<close>, \<open>^\<close>, \<open>$\<close>, escapes,
  bracket expressions, capturing and non-capturing groups, alternation and the quantifiers
  \<open>*\<close>, \<open>+\<close>, \<open>?\<close>, \<open>{n}\<close>, \<open>{n,}\<close>, \<open>{n,m}\<close>, greedy and lazy.  Look-ahead,
  back-references, word boundaries, \<open>\c\<close>, \<open>\x\<close>, \<open>\u\<close> and named character classes
  are outside the model: a pattern using them is reported as \<open>error_unsupported\<close>, like a
  pattern that does not compile.
\<close>

datatype citem = CChar char | CRange char char | CDigit bool | CWord bool | CSpace bool

datatype regex =
    Epsilon
  | Chr char
  | AnyChar
  | Cls bool "citem list"
  | Bol
  | Eol
  | Seq regex regex
  | Alt regex regex
  | Group nat regex
  | NGroup regex
  | Rep nat "nat option" bool regex

datatype regex_error =
    error_escape | error_paren | error_brack | error_brace | error_badbrace
  | error_range | error_badrepeat | error_unsupported

definition isspace :: "char \<Rightarrow> bool" where
  "isspace c = ((of_char c :: nat) = 32 \<or> (9 \<le> (of_char c :: nat) \<and> (of_char c :: nat) \<le> 13))"

definition isword :: "char \<Rightarrow> bool" where
  "isword c = (isalnum c \<or> c = CHR ''_'')"

definition in_range :: "char \<Rightarrow> char \<Rightarrow> char \<Rightarrow> bool" where
  "in_range lo hi x = ((of_char lo :: nat) \<le> of_char x \<and> (of_char x :: nat) \<le> of_char hi)"

definition char_eq :: "bool \<Rightarrow> char \<Rightarrow> char \<Rightarrow> bool" where
  "char_eq ic c x = (if ic then tolower c = tolower x else c = x)"

fun citem_member :: "bool \<Rightarrow> citem \<Rightarrow> char \<Rightarrow> bool" where
  "citem_member ic (CChar c) x = char_eq ic c x"
| "citem_member ic (CRange lo hi) x =
     (in_range lo hi x \<or> (ic \<and> (in_range lo hi (tolower x) \<or> in_range lo hi (toupper x))))"
| "citem_member ic (CDigit pos) x = (isdigit x = pos)"
| "citem_member ic (CWord pos) x = (isword x = pos)"
| "citem_member ic (CSpace pos) x = (isspace x = pos)"

definition cls_member :: "bool \<Rightarrow> bool \<Rightarrow> citem list \<Rightarrow> char \<Rightarrow> bool" where
  "cls_member ic neg items x = (list_ex (\<lambda>it. citem_member ic it x) items \<noteq> neg)"

text \<open>
  A matcher state: the input still to be read, and the text of each capturing group set so
  far (\<open>None\<close> for a group that has not taken part).
\<close>

type_synonym mstate = "string \<times> string option list"

fun groups_of :: "regex \<Rightarrow> nat list" where
  "groups_of (Seq a b) = groups_of a @ groups_of b"
| "groups_of (Alt a b) = groups_of a @ groups_of b"
| "groups_of (Group k r) = k # groups_of r"
| "groups_of (NGroup r) = groups_of r"
| "groups_of (Rep mn mx g r) = groups_of r"
| "groups_of r = []"

definition reset_caps :: "nat list \<Rightarrow> string option list \<Rightarrow> string option list" where
  "reset_caps ks caps = fold (\<lambda>k c. c[k - 1 := None]) ks caps"

fun rsize :: "regex \<Rightarrow> nat" where
  "rsize (Seq a b) = Suc (rsize a + rsize b)"
| "rsize (Alt a b) = Suc (rsize a + rsize b)"
| "rsize (Group k r) = Suc (rsize r)"
| "rsize (NGroup r) = Suc (rsize r)"
| "rsize (Rep mn mx g r) = Suc (rsize r)"
| "rsize r = 0"

definition one_char :: "(char \<Rightarrow> bool) \<Rightarrow> mstate \<Rightarrow> mstate list" where
  "one_char p st = (case fst st of [] \<Rightarrow> [] | x # xs \<Rightarrow> if p x then [(xs, snd st)] else [])"

text \<open>
  \<open>rmatch ic s r st\<close>: the states in which matching \<open>r\<close> from \<open>st\<close> can end, in
  backtracking order; \<open>ic\<close> is the \<open>icase\<close> flag and \<open>s\<close> the whole input (for \<open>^\<close>).
  A quantified term follows the RepeatMatcher of ECMA-262: the groups inside it are reset
  before each iteration, and once the minimum is reached an iteration that reads nothing
  is rejected.
\<close>

function rmatch :: "bool \<Rightarrow> string \<Rightarrow> regex \<Rightarrow> mstate \<Rightarrow> mstate list" where
  "rmatch ic s Epsilon st = [st]"
| "rmatch ic s (Chr c) st = one_char (char_eq ic c) st"
| "rmatch ic s AnyChar st = one_char (\<lambda>x. x \<noteq> CHR 0x0A \<and> x \<noteq> CHR 0x0D) st"
| "rmatch ic s (Cls neg items) st = one_char (cls_member ic neg items) st"
| "rmatch ic s Bol st = (if length (fst st) = length s then [st] else [])"
| "rmatch ic s Eol st = (if fst st = [] then [st] else [])"
| "rmatch ic s (Seq a b) st = concat (map (rmatch ic s b) (rmatch ic s a st))"
| "rmatch ic s (Alt a b) st = rmatch ic s a st @ rmatch ic s b st"
| "rmatch ic s (Group k r) st =
     map (\<lambda>st'. (fst st', (snd st')[k - 1 := Some (take (length (fst st) - length (fst st')) (fst st))]))
       (rmatch ic s r st)"
| "rmatch ic s (NGroup r) st = rmatch ic s r st"
| "rmatch ic s (Rep mn mx g r) st =
     (if mx = Some 0 then [st]
      else
        let more = concat (map
              (\<lambda>st'. if mn = 0 \<and> length (fst st) \<le> length (fst st') then []
                     else rmatch ic s (Rep (mn - 1) (map_option (\<lambda>k. k - 1) mx) g r) st')
              (rmatch ic s r (fst st, reset_caps (groups_of r) (snd st))))
        in if mn \<noteq> 0 then more else if g then more @ [st] else st # more)"
  by pat_completeness auto
termination
  by (relation "inv_image (less_than <*lex*> less_than <*lex*> less_than)
        (\<lambda>(ic, s, r, st). (rsize r, (case r of Rep mn mx g r' \<Rightarrow> mn | _ \<Rightarrow> 0), length (fst st)))")
     (auto)

declare rmatch.simps(11) [simp del]

subsection \<open>Parsing a pattern\<close>

text \<open>
  The parser reads the pattern one character at a time.  Its state holds the finished
  alternatives and the terms of the current alternative (latest first) of the innermost
  open group, the enclosing open groups, the number of capturing groups opened so far, and
  a mode for the tokens that span several characters.
\<close>

datatype bmode = BStart | BNormal | BEscape | BRange char | BOpen

datatype pmode =
    Normal | Escape | AfterParen | AfterParenQ
  | Bracket bool "citem list" bmode
  | BraceMin "nat option"
  | BraceMax nat "nat option"

record pstate =
  alts :: "regex list"
  cur :: "regex list"
  stack :: "(nat option \<times> regex list \<times> regex list) list"
  ngroups :: nat
  mode :: pmode

definition seq_of :: "regex list \<Rightarrow> regex" where
  "seq_of atoms = foldr Seq atoms Epsilon"

fun alt_of :: "regex list \<Rightarrow> regex" where
  "alt_of [] = Epsilon"
| "alt_of [a] = a"
| "alt_of (a # as) = Alt a (alt_of as)"

definition level_ast :: "regex list \<Rightarrow> regex list \<Rightarrow> regex" where
  "level_ast as atoms = alt_of (as @ [seq_of (rev atoms)])"

definition push :: "regex \<Rightarrow> pstate \<Rightarrow> regex_error + pstate" where
  "push a \<sigma> = Inr (\<sigma>\<lparr>cur := a # cur \<sigma>, mode := Normal\<rparr>)"

definition quantify :: "nat \<Rightarrow> nat option \<Rightarrow> pstate \<Rightarrow> regex_error + pstate" where
  "quantify mn mx \<sigma> =
     (case cur \<sigma> of
        [] \<Rightarrow> Inl error_badrepeat
      | a # rest \<Rightarrow>
          (case a of
             Rep mn' mx' g r \<Rightarrow> Inl error_badrepeat
           | Bol \<Rightarrow> Inl error_badrepeat
           | Eol \<Rightarrow> Inl error_badrepeat
           | _ \<Rightarrow> Inr (\<sigma>\<lparr>cur := Rep mn mx True a # rest, mode := Normal\<rparr>)))"

definition question :: "pstate \<Rightarrow> regex_error + pstate" where
  "question \<sigma> =
     (case cur \<sigma> of
        Rep mn mx g r # rest \<Rightarrow>
          (if g then Inr (\<sigma>\<lparr>cur := Rep mn mx False r # rest\<rparr>) else Inl error_badrepeat)
      | _ \<Rightarrow> quantify 0 (Some 1) \<sigma>)"

definition open_group :: "nat option \<Rightarrow> pstate \<Rightarrow> pstate" where
  "open_group k \<sigma> =
     \<sigma>\<lparr>stack := (k, alts \<sigma>, cur \<sigma>) # stack \<sigma>, alts := [], cur := [], mode := Normal\<rparr>"

definition close_group :: "pstate \<Rightarrow> regex_error + pstate" where
  "close_group \<sigma> =
     (case stack \<sigma> of
        [] \<Rightarrow> Inl error_paren
      | (k, as, atoms) # frames \<Rightarrow>
          Inr (\<sigma>\<lparr>stack := frames, alts := as,
                  cur := (case k of None \<Rightarrow> NGroup (level_ast (alts \<sigma>) (cur \<sigma>))
                          | Some i \<Rightarrow> Group i (level_ast (alts \<sigma>) (cur \<sigma>))) # atoms\<rparr>))"

definition step_normal :: "pstate \<Rightarrow> char \<Rightarrow> regex_error + pstate" where
  "step_normal \<sigma> c =
     (if c = CHR 0x5C then Inr (\<sigma>\<lparr>mode := Escape\<rparr>)
      else if c = CHR ''('' then Inr (\<sigma>\<lparr>mode := AfterParen\<rparr>)
      else if c = CHR '')'' then close_group \<sigma>
      else if c = CHR ''['' then Inr (\<sigma>\<lparr>mode := Bracket False [] BStart\<rparr>)
      else if c = CHR ''{'' then Inr (\<sigma>\<lparr>mode := BraceMin None\<rparr>)
      else if c = CHR ''*'' then quantify 0 None \<sigma>
      else if c = CHR ''+'' then quantify 1 None \<sigma>
      else if c = CHR ''?'' then question \<sigma>
      else if c = CHR ''|'' then Inr (\<sigma>\<lparr>alts := alts \<sigma> @ [seq_of (rev (cur \<sigma>))], cur := []\<rparr>)
      else if c = CHR ''^'' then push Bol \<sigma>
      else if c = CHR ''$'' then push Eol \<sigma>
      else if c = CHR ''.'' then push AnyChar \<sigma>
      else push (Chr c) \<sigma>)"

definition class_escape :: "char \<Rightarrow> citem option" where
  "class_escape c =
     (if c = CHR ''d'' then Some (CDigit True) else if c = CHR ''D'' then Some (CDigit False)
      else if c = CHR ''w'' then Some (CWord True) else if c = CHR ''W'' then Some (CWord False)
      else if c = CHR ''s'' then Some (CSpace True) else if c = CHR ''S'' then Some (CSpace False)
      else None)"

definition control_escape :: "char \<Rightarrow> char option" where
  "control_escape c =
     (if c = CHR ''f'' then Some (CHR 0x0C) else if c = CHR ''n'' then Some (CHR 0x0A)
      else if c = CHR ''r'' then Some (CHR 0x0D) else if c = CHR ''t'' then Some (CHR 0x09)
      else if c = CHR ''v'' then Some (CHR 0x0B) else if c = CHR ''0'' then Some (CHR 0x00)
      else None)"

definition step_escape :: "pstate \<Rightarrow> char \<Rightarrow> regex_error + pstate" where
  "step_escape \<sigma> c =
     (case class_escape c of
        Some it \<Rightarrow> push (Cls False [it]) \<sigma>
      | None \<Rightarrow>
          (case control_escape c of
             Some x \<Rightarrow> push (Chr x) \<sigma>
           | None \<Rightarrow>
               if c = CHR ''b'' \<or> c = CHR ''B'' \<or> c = CHR ''c'' \<or> c = CHR ''x'' \<or> c = CHR ''u''
                  \<or> isdigit c
               then Inl error_unsupported
               else push (Chr c) \<sigma>))"

definition bracket_char :: "pstate \<Rightarrow> bool \<Rightarrow> citem list \<Rightarrow> char \<Rightarrow> regex_error + pstate" where
  "bracket_char \<sigma> neg items c =
     (if c = CHR '']'' then push (Cls neg (rev items)) \<sigma>
      else if c = CHR 0x5C then Inr (\<sigma>\<lparr>mode := Bracket neg items BEscape\<rparr>)
      else if c = CHR ''['' then Inr (\<sigma>\<lparr>mode := Bracket neg items BOpen\<rparr>)
      else if c = CHR ''-'' then
        (case items of
           CChar a # rest \<Rightarrow> Inr (\<sigma>\<lparr>mode := Bracket neg rest (BRange a)\<rparr>)
         | _ \<Rightarrow> Inr (\<sigma>\<lparr>mode := Bracket neg (CChar c # items) BNormal\<rparr>))
      else Inr (\<sigma>\<lparr>mode := Bracket neg (CChar c # items) BNormal\<rparr>))"

definition step_bracket ::
  "pstate \<Rightarrow> bool \<Rightarrow> citem list \<Rightarrow> bmode \<Rightarrow> char \<Rightarrow> regex_error + pstate" where
  "step_bracket \<sigma> neg items b c =
     (case b of
        BStart \<Rightarrow>
          if c = CHR ''^'' then Inr (\<sigma>\<lparr>mode := Bracket True items BNormal\<rparr>)
          else bracket_char \<sigma> neg items c
      | BNormal \<Rightarrow> bracket_char \<sigma> neg items c
      | BEscape \<Rightarrow>
          (case class_escape c of
             Some it \<Rightarrow> Inr (\<sigma>\<lparr>mode := Bracket neg (it # items) BNormal\<rparr>)
           | None \<Rightarrow>
               (case control_escape c of
                  Some x \<Rightarrow> Inr (\<sigma>\<lparr>mode := Bracket neg (CChar x # items) BNormal\<rparr>)
                | None \<Rightarrow>
                    if c = CHR ''b'' then Inr (\<sigma>\<lparr>mode := Bracket neg (CChar (CHR 0x08) # items) BNormal\<rparr>)
                    else if c = CHR ''c'' \<or> c = CHR ''x'' \<or> c = CHR ''u'' \<or> isdigit c
                    then Inl error_unsupported
                    else Inr (\<sigma>\<lparr>mode := Bracket neg (CChar c # items) BNormal\<rparr>)))
      | BRange a \<Rightarrow>
          if c = CHR '']'' then push (Cls neg (rev (CChar CHR ''-'' # CChar a # items))) \<sigma>
          else if c = CHR 0x5C \<or> c = CHR ''['' then Inl error_unsupported
          else if (of_char a :: nat) \<le> of_char c
          then Inr (\<sigma>\<lparr>mode := Bracket neg (CRange a c # items) BNormal\<rparr>)
          else Inl error_range
      | BOpen \<Rightarrow>
          if c = CHR '':'' \<or> c = CHR ''.'' \<or> c = CHR ''='' then Inl error_unsupported
          else bracket_char \<sigma> neg (CChar CHR ''['' # items) c)"

definition digit_value :: "char \<Rightarrow> nat" where
  "digit_value c = (of_char c :: nat) - 48"

definition step_brace_min :: "pstate \<Rightarrow> nat option \<Rightarrow> char \<Rightarrow> regex_error + pstate" where
  "step_brace_min \<sigma> acc c =
     (if isdigit c then
        Inr (\<sigma>\<lparr>mode := BraceMin (Some ((case acc of None \<Rightarrow> 0 | Some n \<Rightarrow> 10 * n) + digit_value c))\<rparr>)
      else
        (case acc of
           None \<Rightarrow> Inl error_badbrace
         | Some n \<Rightarrow>
             if c = CHR '','' then Inr (\<sigma>\<lparr>mode := BraceMax n None\<rparr>)
             else if c = CHR ''}'' then quantify n (Some n) \<sigma>
             else Inl error_badbrace))"

definition step_brace_max :: "pstate \<Rightarrow> nat \<Rightarrow> nat option \<Rightarrow> char \<Rightarrow> regex_error + pstate" where
  "step_brace_max \<sigma> n acc c =
     (if isdigit c then
        Inr (\<sigma>\<lparr>mode := BraceMax n (Some ((case acc of None \<Rightarrow> 0 | Some m \<Rightarrow> 10 * m) + digit_value c))\<rparr>)
      else if c = CHR ''}'' then
        (case acc of
           None \<Rightarrow> quantify n None \<sigma>
         | Some m \<Rightarrow> if n \<le> m then quantify n (Some m) \<sigma> else Inl error_badbrace)
      else Inl error_badbrace)"

definition step :: "pstate \<Rightarrow> char \<Rightarrow> regex_error + pstate" where
  "step \<sigma> c =
     (case mode \<sigma> of
        Normal \<Rightarrow> step_normal \<sigma> c
      | Escape \<Rightarrow> step_escape \<sigma> c
      | AfterParen \<Rightarrow>
          if c = CHR ''?'' then Inr (\<sigma>\<lparr>mode := AfterParenQ\<rparr>)
          else step_normal (open_group (Some (Suc (ngroups \<sigma>))) (\<sigma>\<lparr>ngroups := Suc (ngroups \<sigma>)\<rparr>)) c
      | AfterParenQ \<Rightarrow>
          if c = CHR '':'' then Inr (open_group None \<sigma>)
          else if c = CHR ''='' \<or> c = CHR ''!'' then Inl error_unsupported
          else Inl error_paren
      | Bracket neg items b \<Rightarrow> step_bracket \<sigma> neg items b c
      | BraceMin acc \<Rightarrow> step_brace_min \<sigma> acc c
      | BraceMax n acc \<Rightarrow> step_brace_max \<sigma> n acc c)"

fun run :: "regex_error + pstate \<Rightarrow> string \<Rightarrow> regex_error + pstate" where
  "run (Inl e) cs = Inl e"
| "run (Inr \<sigma>) [] = Inr \<sigma>"
| "run (Inr \<sigma>) (c # cs) = run (step \<sigma> c) cs"

definition finish :: "pstate \<Rightarrow> regex_error + (regex \<times> nat)" where
  "finish \<sigma> =
     (case mode \<sigma> of
        Normal \<Rightarrow>
          if stack \<sigma> = [] then Inr (level_ast (alts \<sigma>) (cur \<sigma>), ngroups \<sigma>) else Inl error_paren
      | Escape \<Rightarrow> Inl error_escape
      | AfterParen \<Rightarrow> Inl error_paren
      | AfterParenQ \<Rightarrow> Inl error_paren
      | Bracket neg items b \<Rightarrow> Inl error_brack
      | BraceMin acc \<Rightarrow> Inl error_brace
      | BraceMax n acc \<Rightarrow> Inl error_brace)"

definition initial_pstate :: pstate where
  "initial_pstate = \<lparr>alts = [], cur = [], stack = [], ngroups = 0, mode = Normal\<rparr>"

definition regex_parse :: "string \<Rightarrow> regex_error + (regex \<times> nat)" where
  "regex_parse p = (case run (Inr initial_pstate) p of Inl e \<Rightarrow> Inl e | Inr \<sigma> \<Rightarrow> finish \<sigma>)"


subsection \<open>Regex objects, matching and searching\<close>

text \<open>
  \<open>regex_new\<close> is the constructor of \<open>std::regex\<close>: it fails with a \<open>regex_error\<close>
  on a pattern that does not parse.  A \<open>sub_match\<close> is \<open>None\<close> when the group did not
  take part (its \<open>matched\<close> is false and its \<open>str()\<close> is empty); \<open>match_results\<close> holds
  the whole match at index 0 and the groups after it, and indexing past the end gives an
  unmatched \<open>sub_match\<close>.
\<close>

record basic_regex =
  re_ast :: regex
  re_marks :: nat
  re_icase :: bool

datatype syntax_option = ECMAScript | icase

definition regex_new :: "string \<Rightarrow> syntax_option list \<Rightarrow> regex_error + basic_regex" where
  "regex_new p flags =
     (case regex_parse p of
        Inl e \<Rightarrow> Inl e
      | Inr (r, n) \<Rightarrow> Inr \<lparr>re_ast = r, re_marks = n, re_icase = (icase \<in> set flags)\<rparr>)"

type_synonym sub_match = "string option"

definition sub_matched :: "sub_match \<Rightarrow> bool" where
  "sub_matched m = (m \<noteq> None)"

definition str :: "sub_match \<Rightarrow> string" where
  "str m = (case m of None \<Rightarrow> [] | Some t \<Rightarrow> t)"

record match_results =
  position :: nat
  subs :: "sub_match list"

definition sub :: "match_results \<Rightarrow> nat \<Rightarrow> sub_match" where
  "sub m i = (if i < length (subs m) then subs m ! i else None)"

definition mlength :: "match_results \<Rightarrow> nat" where
  "mlength m = length (str (sub m 0))"

definition match_here :: "basic_regex \<Rightarrow> string \<Rightarrow> string \<Rightarrow> mstate list" where
  "match_here re s rest =
     rmatch (re_icase re) s (re_ast re) (rest, replicate (re_marks re) None)"

text \<open>
  \<open>std::regex_match\<close>: the first way, in backtracking order, to match the whole input.
\<close>

definition regex_match :: "basic_regex \<Rightarrow> string \<Rightarrow> match_results option" where
  "regex_match re s =
     (case filter (\<lambda>st. fst st = []) (match_here re s s) of
        [] \<Rightarrow> None
      | st # sts \<Rightarrow> Some \<lparr>position = 0, subs = Some s # snd st\<rparr>)"

definition found :: "nat \<Rightarrow> string \<Rightarrow> mstate \<Rightarrow> match_results" where
  "found off rest st =
     \<lparr>position = off, subs = Some (take (length rest - length (fst st)) rest) # snd st\<rparr>"

text \<open>
  \<open>std::regex_search\<close> from an offset: the leftmost position where the pattern matches,
  and the first match there.
\<close>

fun search_from :: "basic_regex \<Rightarrow> string \<Rightarrow> nat \<Rightarrow> string \<Rightarrow> match_results option" where
  "search_from re s off [] =
     (case match_here re s [] of [] \<Rightarrow> None | st # sts \<Rightarrow> Some (found off [] st))"
| "search_from re s off (c # cs) =
     (case match_here re s (c # cs) of
        [] \<Rightarrow> search_from re s (Suc off) cs
      | st # sts \<Rightarrow> Some (found off (c # cs) st))"

lemma search_from_bounds:
  "search_from re s off rest = Some m \<Longrightarrow>
   off \<le> position m \<and> (position m - off) + mlength m \<le> length rest"
proof (induction rest arbitrary: off)
  case Nil
  then show ?case
    by (auto simp add: found_def mlength_def sub_def str_def split: list.splits)
next
  case (Cons c cs)
  show ?case
  proof (cases "match_here re s (c # cs)")
    case Nil
    with Cons.prems have "search_from re s (Suc off) cs = Some m" by simp
    from Cons.IH [OF this] show ?thesis by auto
  next
    case (Cons st sts)
    with Cons.prems show ?thesis 
      by (auto simp add: found_def mlength_def sub_def str_def)
  qed
qed

text \<open>
  \<open>std::sregex_iterator\<close>: the successive non-overlapping matches, each search starting
  where the previous match ended.  The special treatment the iterator gives to an empty
  match is not modelled (the iteration ends there): the tokenizer's pattern, the only one
  iterated, never matches the empty text.
\<close>

function sregex_iterator_from ::
  "basic_regex \<Rightarrow> string \<Rightarrow> nat \<Rightarrow> string \<Rightarrow> match_results list" where
  "sregex_iterator_from re s off rest =
     (case search_from re s off rest of
        None \<Rightarrow> []
      | Some m \<Rightarrow>
          m # (if mlength m = 0 then []
               else sregex_iterator_from re s (position m + mlength m)
                      (drop (position m - off + mlength m) rest)))"
  by pat_completeness auto
termination
proof (relation "measure (\<lambda>(re, s, off, rest). length rest)")
  show "wf (measure (\<lambda>(re, s, off, rest). length rest))" by simp
next
  fix re s off rest m
  assume "search_from re s off rest = Some m" and "mlength m \<noteq> 0"
  with search_from_bounds [of re s off rest m]
  show "((re, s, position m + mlength m, drop (position m - off + mlength m) rest),
         (re, s, off, rest)) \<in> measure (\<lambda>(re, s, off, rest). length rest)"
    by auto
qed

declare sregex_iterator_from.simps [simp del]

definition sregex_iterator :: "string \<Rightarrow> basic_regex \<Rightarrow> match_results list" where
  "sregex_iterator s re = sregex_iterator_from re s 0 s"

section \<open>The pattern compiler\<close>

text \<open>
  \<open>rx\<close> is the static tokenizer regex of \<open>make_pattern\<close>, built from its raw string
  literal \<open>rx_pattern\<close> (\<open>bs\<close> is the backslash).
\<close>

definition bs :: char where
  "bs = CHR 0x5C"

definition rx_pattern :: string where
  "rx_pattern =
     [bs] @ ''{([^}]*)'' @ [bs] @ ''}|:(['' @ [bs] @ ''w%]+)('' @ [bs] @ ''([^)]+'' @ [bs]
       @ ''))?|'' @ [bs] @ ''*(['' @ [bs] @ ''w%]+)|([.'' @ [bs] @ ''^$*+?()|'' @ [bs] @ ''[''
       @ [bs] @ '']{}'' @ [bs, bs] @ ''])''"

definition rx :: basic_regex where
  "rx = (case regex_new rx_pattern [ECMAScript] of
           Inr re \<Rightarrow> re
         | Inl e \<Rightarrow> \<lparr>re_ast = Epsilon, re_marks = 0, re_icase = False\<rparr>)"

definition substr :: "string \<Rightarrow> nat \<Rightarrow> nat \<Rightarrow> string" where
  "substr s pos n = take n (drop pos s)"

definition optional_param_key_idx :: nat where "optional_param_key_idx = 1"
definition required_param_key_idx :: nat where "required_param_key_idx = 2"
definition required_param_pattern_idx :: nat where "required_param_pattern_idx = 3"
definition wildcard_param_key_idx :: nat where "wildcard_param_key_idx = 4"
definition special_chars_key_idx :: nat where "special_chars_key_idx = 5"


subsection \<open>General facts about the matcher\<close>

lemma one_char_iff:
  "st' \<in> set (one_char p st) \<longleftrightarrow> (\<exists>x. fst st = x # fst st' \<and> p x \<and> snd st' = snd st)"
  by (cases st; cases st'; cases "fst st") (auto simp add: one_char_def)

lemma length_reset_caps: "length (reset_caps ks caps) = length caps"
  unfolding reset_caps_def by (induction ks arbitrary: caps) simp_all

lemma reset_caps_nth:
  "reset_caps ks caps ! i = caps ! i \<or> reset_caps ks caps ! i = None"
  unfolding reset_caps_def
proof (induction ks arbitrary: caps)
  case Nil
  show ?case by simp
next
  case (Cons k ks)
  from Cons [of "caps[k - 1 := None]"] show ?case
    by (cases "i = k - 1"; cases "k - 1 < length caps") (auto simp add: list_update_beyond)
qed

text \<open>Matching only consumes input, keeps the number of sub-matches, and every sub-match
  it sets is a text no longer than the input that was left when matching began.\<close>

definition cap_ok :: "mstate \<Rightarrow> mstate \<Rightarrow> bool" where
  "cap_ok st st' \<longleftrightarrow>
     length (fst st') \<le> length (fst st) \<and> length (snd st') = length (snd st)
     \<and> (\<forall>i. snd st' ! i = snd st ! i \<or> snd st' ! i = None
              \<or> (\<exists>t. snd st' ! i = Some t \<and> length t \<le> length (fst st)))"

lemma cap_ok_refl: "cap_ok st st"
  by (simp add: cap_ok_def)

lemma cap_ok_trans: "cap_ok a b \<Longrightarrow> cap_ok b c \<Longrightarrow> cap_ok a c"
  unfolding cap_ok_def
  apply (intro conjI allI)
    apply simp
   apply simp
  subgoal for i
    apply (elim conjE)
    apply (erule_tac x = i in allE)+
    apply (elim disjE exE conjE)
            apply (auto intro: order_trans)
    done
  done

lemma rmatch_cap_ok: "st' \<in> set (rmatch ic s r st) \<Longrightarrow> cap_ok st st'"
proof (induction ic s r st arbitrary: st' rule: rmatch.induct)
  case (1 ic s st)
  then show ?case by (simp add: cap_ok_refl)
next
  case (2 ic s c st)
  then show ?case by (auto simp add: one_char_iff cap_ok_def)
next
  case (3 ic s st)
  then show ?case by (auto simp add: one_char_iff cap_ok_def)
next
  case (4 ic s neg items st)
  then show ?case by (auto simp add: one_char_iff cap_ok_def)
next
  case (5 ic s st)
  then show ?case by (auto simp add: cap_ok_refl split: if_splits)
next
  case (6 ic s st)
  then show ?case by (auto simp add: cap_ok_refl split: if_splits)
next
  case (7 ic s a b st)
  from "7.prems" obtain st1 where "st1 \<in> set (rmatch ic s a st)" "st' \<in> set (rmatch ic s b st1)"
    by auto
  with "7.IH" show ?case by (blast intro: cap_ok_trans)
next
  case (8 ic s a b st)
  from "8.prems" have "st' \<in> set (rmatch ic s a st) \<or> st' \<in> set (rmatch ic s b st)"
    by simp
  with "8.IH" show ?case by blast
next
  case (9 ic s k r st)
  from "9.prems" obtain st1 where st1: "st1 \<in> set (rmatch ic s r st)"
    and st': "st' = (fst st1, (snd st1)[k - 1 := Some (take (length (fst st) - length (fst st1)) (fst st))])"
    by auto
  from "9.IH" [OF st1] have ok: "cap_ok st st1" .
  show ?case
    unfolding cap_ok_def
  proof (intro conjI allI)
    show "length (fst st') \<le> length (fst st)" using ok st' by (simp add: cap_ok_def)
    show "length (snd st') = length (snd st)" using ok st' by (simp add: cap_ok_def)
    fix i
    show "snd st' ! i = snd st ! i \<or> snd st' ! i = None
        \<or> (\<exists>t. snd st' ! i = Some t \<and> length t \<le> length (fst st))"
    proof (cases "i = k - 1 \<and> i < length (snd st1)")
      case True
      then show ?thesis using st' by simp
    next
      case False
      then have "snd st' ! i = snd st1 ! i" using st' by (auto simp add: list_update_beyond)
      then show ?thesis using ok by (simp add: cap_ok_def)
    qed
  qed
next
  case (10 ic s r st)
  then show ?case by simp
next
  case (11 ic s mn mx g r st)
  show ?case
  proof (cases "mx = Some 0")
    case True
    with "11.prems" show ?thesis by (subst (asm) rmatch.simps(11)) (simp add: cap_ok_refl)
  next
    case False
    let ?st0 = "(fst st, reset_caps (groups_of r) (snd st))"
    have ok0: "cap_ok st ?st0"
      unfolding cap_ok_def
    proof (intro conjI allI)
      fix i
      show "snd ?st0 ! i = snd st ! i \<or> snd ?st0 ! i = None
          \<or> (\<exists>t. snd ?st0 ! i = Some t \<and> length t \<le> length (fst st))"
        using reset_caps_nth [of "groups_of r" "snd st" i] by auto
    qed (simp_all add: length_reset_caps)
    from "11.prems" False have
      "st' = st \<or> (\<exists>st1 \<in> set (rmatch ic s r ?st0).
          \<not> (mn = 0 \<and> length (fst st) \<le> length (fst st1)) \<and>
          st' \<in> set (rmatch ic s (Rep (mn - 1) (map_option (\<lambda>k. k - 1) mx) g r) st1))"
      by (subst (asm) rmatch.simps(11)) (auto simp add: Let_def split: if_splits)
    then show ?thesis
    proof
      assume "st' = st"
      then show ?thesis by (simp add: cap_ok_refl)
    next
      assume "\<exists>st1 \<in> set (rmatch ic s r ?st0).
          \<not> (mn = 0 \<and> length (fst st) \<le> length (fst st1)) \<and>
          st' \<in> set (rmatch ic s (Rep (mn - 1) (map_option (\<lambda>k. k - 1) mx) g r) st1)"
      then obtain st1 where st1: "st1 \<in> set (rmatch ic s r ?st0)"
        and prog: "\<not> (mn = 0 \<and> length (fst st) \<le> length (fst st1))"
        and st': "st' \<in> set (rmatch ic s (Rep (mn - 1) (map_option (\<lambda>k. k - 1) mx) g r) st1)"
        by blast
      from "11.IH"(1) [OF False st1] have a: "cap_ok ?st0 st1" .
      from "11.IH"(2) [OF False st1 prog st'] have b: "cap_ok st1 st'" .
      from ok0 a b show ?thesis by (blast intro: cap_ok_trans)
    qed
  qed
qed

lemma rmatch_after_char:
  assumes "st' \<in> set (rmatch ic s (Seq (Chr c) r) st)"
    and "snd st ! i = None" and "snd st' ! i = Some t"
  shows "length t < length (fst st)"
proof -
  from assms(1) obtain st1 where st1: "st1 \<in> set (one_char (char_eq ic c) st)"
    and st': "st' \<in> set (rmatch ic s r st1)"
    by auto
  from st1 have len: "length (fst st1) < length (fst st)" and caps: "snd st1 = snd st"
    by (auto simp add: one_char_iff)
  from rmatch_cap_ok [OF st'] have
    "snd st' ! i = snd st1 ! i \<or> snd st' ! i = None
      \<or> (\<exists>t. snd st' ! i = Some t \<and> length t \<le> length (fst st1))"
    by (simp add: cap_ok_def)
  with assms(2,3) caps len show ?thesis by auto
qed

lemma sregex_iterator_from_mem:
  "m \<in> set (sregex_iterator_from re s off rest) \<Longrightarrow>
   \<exists>pre rest' st sts. rest = pre @ rest' \<and> match_here re s rest' = st # sts
      \<and> m = found (off + length pre) rest' st"
proof (induction re s off rest rule: sregex_iterator_from.induct)
  case (1 re s off rest)
  have search: "\<And>off m. search_from re s off rest = Some m \<Longrightarrow>
      \<exists>pre rest' st sts. rest = pre @ rest' \<and> match_here re s rest' = st # sts
        \<and> m = found (off + length pre) rest' st"
  proof (induction rest)
    case Nil
    then show ?case by (auto split: list.splits)
  next
    case (Cons c cs)
    show ?case
    proof (cases "match_here re s (c # cs)")
      case Nil
      with Cons.prems have "search_from re s (Suc off) cs = Some m" by simp
      from Cons.IH [OF this] obtain pre rest' st sts where
        "cs = pre @ rest'" "match_here re s rest' = st # sts"
        "m = found (Suc off + length pre) rest' st"
        by blast
      then have "c # cs = (c # pre) @ rest' \<and> match_here re s rest' = st # sts
          \<and> m = found (off + length (c # pre)) rest' st"
        by simp
      then show ?thesis by blast
    next
      case (Cons st sts)
      with Cons.prems have "c # cs = [] @ (c # cs) \<and> match_here re s (c # cs) = st # sts
          \<and> m = found (off + length ([] :: string)) (c # cs) st"
        by simp
      then show ?thesis by blast
    qed
  qed
  show ?case
  proof (cases "search_from re s off rest")
    case None
    with "1.prems" show ?thesis by (simp add: sregex_iterator_from.simps [of re s off rest])
  next
    case (Some m0)
    show ?thesis
    proof (cases "m = m0")
      case True
      with search [OF Some] show ?thesis by simp
    next
      case False
      with "1.prems" Some have nz: "mlength m0 \<noteq> 0"
        and mem: "m \<in> set (sregex_iterator_from re s (position m0 + mlength m0)
                      (drop (position m0 - off + mlength m0) rest))"
        by (auto simp add: sregex_iterator_from.simps [of re s off rest] split: if_splits)
      from "1.IH" [OF Some nz mem] obtain pre rest' st sts where
        d: "drop (position m0 - off + mlength m0) rest = pre @ rest'"
        and mh: "match_here re s rest' = st # sts"
        and m: "m = found (position m0 + mlength m0 + length pre) rest' st"
        by blast
      from search_from_bounds [OF Some] have b: "off \<le> position m0"
        "position m0 - off + mlength m0 \<le> length rest" by auto
      let ?n = "position m0 - off + mlength m0"
      have "rest = (take ?n rest @ pre) @ rest'" using d by (metis append_assoc append_take_drop_id)
      moreover have "off + length (take ?n rest @ pre) = position m0 + mlength m0 + length pre"
        using b by simp
      ultimately have "rest = (take ?n rest @ pre) @ rest' \<and> match_here re s rest' = st # sts
          \<and> m = found (off + length (take ?n rest @ pre)) rest' st"
        using mh m by (simp only:)
      then show ?thesis by blast
    qed
  qed
qed


definition rx_opt :: regex where
  "rx_opt = Seq (Chr CHR ''{'')
      (Seq (Group 1 (Seq (Rep 0 None True (Cls True [CChar CHR ''}''])) Epsilon))
        (Seq (Chr CHR ''}'') Epsilon))"

definition rx_req :: regex where
  "rx_req = Seq (Chr CHR '':'')
      (Seq (Group 2 (Seq (Rep 1 None True (Cls False [CWord True, CChar CHR ''%''])) Epsilon))
        (Seq (Rep 0 (Some 1) True
               (Group 3
                 (Seq (Chr CHR ''('')
                   (Seq (Rep 1 None True (Cls True [CChar CHR '')'']))
                     (Seq (Chr CHR '')'') Epsilon)))))
          Epsilon))"

definition rx_wild :: regex where
  "rx_wild = Seq (Chr CHR ''*'')
      (Seq (Group 4 (Seq (Rep 1 None True (Cls False [CWord True, CChar CHR ''%''])) Epsilon))
        Epsilon)"

definition rx_special_items :: "citem list" where
  "rx_special_items =
     [CChar CHR ''.'', CChar CHR ''^'', CChar CHR ''$'', CChar CHR ''*'', CChar CHR ''+'',
      CChar CHR ''?'', CChar CHR ''('', CChar CHR '')'', CChar CHR ''|'', CChar CHR ''['',
      CChar CHR '']'', CChar CHR ''{'', CChar CHR ''}'', CChar CHR 0x5C]"

definition rx_special :: regex where
  "rx_special = Seq (Group 5 (Seq (Cls False rx_special_items) Epsilon)) Epsilon"

lemma rx_parse:
  "regex_parse rx_pattern = Inr (Alt rx_opt (Alt rx_req (Alt rx_wild rx_special)), 5)"
  by code_simp

lemma rx_eq:
  "rx = \<lparr>re_ast = Alt rx_opt (Alt rx_req (Alt rx_wild rx_special)), re_marks = 5,
         re_icase = False\<rparr>"
  by (simp add: rx_def regex_new_def rx_parse)

lemma match_here_rx:
  "match_here rx s rest =
     rmatch False s rx_opt (rest, replicate 5 None)
     @ rmatch False s rx_req (rest, replicate 5 None)
     @ rmatch False s rx_wild (rest, replicate 5 None)
     @ rmatch False s rx_special (rest, replicate 5 None)"
  by (simp add: match_here_def rx_eq)

lemma rmatch_rx_special:
  "rmatch False s rx_special (rest, caps) =
     (case rest of [] \<Rightarrow> []
      | c # cs \<Rightarrow> if cls_member False False rx_special_items c
                  then [(cs, caps[4 := Some [c]])] else [])"
  by (cases rest) (simp_all add: rx_special_def one_char_def)

lemma rx_opt_shorter:
  assumes "st \<in> set (match_here rx s rest)" and "snd st ! 0 = Some t"
  shows "length t < length rest"
proof -
  let ?st0 = "(rest, replicate 5 (None :: string option))"
  have none: "snd ?st0 ! 0 = None" by simp
  from assms(1) consider
      "st \<in> set (rmatch False s rx_opt ?st0)" | "st \<in> set (rmatch False s rx_req ?st0)"
    | "st \<in> set (rmatch False s rx_wild ?st0)" | "st \<in> set (rmatch False s rx_special ?st0)"
    by (auto simp add: match_here_rx)
  then show ?thesis
  proof cases
    case 1
    from rmatch_after_char [OF 1 [unfolded rx_opt_def] none assms(2)] show ?thesis by simp
  next
    case 2
    from rmatch_after_char [OF 2 [unfolded rx_req_def] none assms(2)] show ?thesis by simp
  next
    case 3
    from rmatch_after_char [OF 3 [unfolded rx_wild_def] none assms(2)] show ?thesis by simp
  next
    case 4
    with assms(2) show ?thesis
      by (auto simp add: rmatch_rx_special split: list.splits if_splits)
  qed
qed

lemma sregex_iterator_rx_opt_shorter:
  assumes "m \<in> set (sregex_iterator path rx)" and "sub_matched (sub m optional_param_key_idx)"
  shows "length (str (sub m optional_param_key_idx)) < length path"
proof -
  from sregex_iterator_from_mem [OF assms(1) [unfolded sregex_iterator_def]]
  obtain pre rest' st sts where p: "path = pre @ rest'"
    and mh: "match_here rx path rest' = st # sts"
    and m: "m = found (0 + length pre) rest' st"
    by blast
  from assms(2) m obtain t where t: "snd st ! 0 = Some t" "str (sub m optional_param_key_idx) = t"
    by (cases "snd st") (auto simp add: sub_matched_def sub_def found_def optional_param_key_idx_def
        str_def split: if_splits)
  from mh have "st \<in> set (match_here rx path rest')" by simp
  from rx_opt_shorter [OF this t(1)] p t(2) show ?thesis by simp
qed

text \<open>
  \<open>make_pattern(path, keys, separator)\<close>: the loop over the tokenizer's matches carries
  \<open>last_pos\<close>, \<open>pattern\<close> and the key list, which the source updates through a
  reference; the model returns the pattern together with the keys.  The recursion on the
  text of an optional group terminates because that text is shorter than \<open>path\<close>.
\<close>

function make_pattern :: "string \<Rightarrow> string list \<Rightarrow> char \<Rightarrow> string \<times> string list" where
  "make_pattern path keys separator =
     (let (last_pos, pattern, keys) =
        fold (\<lambda>match (last_pos, pattern, keys).
            let pattern = (if last_pos < position match
                           then pattern @ substr path last_pos (position match - last_pos)
                           else pattern);
                (pattern, keys) =
                  (if sub_matched (sub match optional_param_key_idx) then
                     (let (subpattern, keys) =
                            make_pattern (str (sub match optional_param_key_idx)) keys separator
                      in (if subpattern \<noteq> [] then pattern @ ''(?:'' @ subpattern @ '')?''
                          else pattern, keys))
                   else if sub_matched (sub match required_param_key_idx) then
                     (let keys = keys @ [percent_decode (str (sub match required_param_key_idx))];
                          subpattern = str (sub match required_param_pattern_idx)
                      in (if subpattern = [] then pattern @ ''([^'' @ [bs] @ [separator] @ '']+?)''
                          else pattern @ subpattern, keys))
                   else if sub_matched (sub match wildcard_param_key_idx) then
                     (pattern @ ''('' @ [bs] @ ''S+?)'',
                      keys @ [percent_decode (str (sub match wildcard_param_key_idx))])
                   else if sub_matched (sub match special_chars_key_idx) then
                     (pattern @ [bs] @ str (sub match special_chars_key_idx), keys)
                   else (pattern, keys))
            in (position match + mlength match, pattern, keys))
          (sregex_iterator path rx) (0, [], keys)
      in (if last_pos < length path
          then pattern @ substr path last_pos (length path - last_pos)
          else pattern, keys))"
  by pat_completeness auto
termination
proof (relation "measure (\<lambda>(path, keys, separator). length path)")
  show "wf (measure (\<lambda>(path, keys, separator). length path))" by simp
next
  fix path :: string and keys separator x xa xb xc xd
  assume "x \<in> set (sregex_iterator path rx)" and "sub_matched (sub x optional_param_key_idx)"
  then show "((str (sub x optional_param_key_idx), xc, separator), path, keys, separator)
      \<in> measure (\<lambda>(path, keys, separator). length path)"
    by (simp add: sregex_iterator_rx_opt_shorter)
qed

declare make_pattern.simps [simp del]

text \<open>The two-argument overload \<open>make_pattern(path, keys)\<close>.\<close>

definition make_pattern_top :: "string \<Rightarrow> string list \<Rightarrow> string \<times> string list" where
  "make_pattern_top path keys =
     (let encoded_path = percent_encode path;
          separator = find_separator path;
          (pattern, keys) = make_pattern encoded_path keys separator;
          pattern = (if pattern = [] \<or> last pattern \<noteq> separator
                     then pattern @ [bs] @ [separator] else pattern)
      in (''^'' @ pattern @ ''?$'', keys))"

section \<open>The matcher\<close>

datatype case_sensitivity = case_sensitive | case_insensitive

definition make_regex_flags :: "case_sensitivity \<Rightarrow> syntax_option list" where
  "make_regex_flags sensitivity =
     (let flags = [ECMAScript]
      in if sensitivity = case_insensitive then flags @ [icase] else flags)"

text \<open>
  The class \<open>matcher\<close>: its constructor compiles \<open>m_pattern\<close> at once and throws when
  that fails.
\<close>

record matcher =
  m_pattern :: string
  m_regex :: basic_regex
  m_keys :: "string list"

definition matcher_new ::
  "string \<Rightarrow> string list \<Rightarrow> case_sensitivity \<Rightarrow> regex_error + matcher" where
  "matcher_new pattern keys sensitivity =
     (case regex_new pattern (make_regex_flags sensitivity) of
        Inl e \<Rightarrow> Inl e
      | Inr re \<Rightarrow> Inr \<lparr>m_pattern = pattern, m_regex = re, m_keys = keys\<rparr>)"

record result =
  matched :: bool
  params :: "string \<rightharpoonup> string"

text \<open>\<open>matcher::operator()\<close>.\<close>

definition matcher_call :: "matcher \<Rightarrow> string \<Rightarrow> result" where
  "matcher_call m path =
     (let encoded_path = percent_encode path in
      case regex_match (m_regex m) encoded_path of
        None \<Rightarrow> \<lparr>matched = False, params = Map.empty\<rparr>
      | Some match \<Rightarrow>
          \<lparr>matched = True,
           params = fold (\<lambda>i ps. ps(m_keys m ! i \<mapsto> percent_decode (str (sub match (i + 1)))))
                      [0..<length (m_keys m)] Map.empty\<rparr>)"

definition pattern :: "matcher \<Rightarrow> string" where
  "pattern m = m_pattern m"

text \<open>The entry point \<open>path_to_regex::match\<close>.\<close>

definition match :: "string \<Rightarrow> case_sensitivity \<Rightarrow> regex_error + matcher" where
  "match path sensitivity =
     (let (pattern, keys) = make_pattern_top path []
      in matcher_new pattern keys sensitivity)"

section \<open>The codec as the specification words it\<close>

definition spec_allow_list :: string where
  "spec_allow_list = ''!'' @ [CHR 0x22] @ ''#$%&'' @ [CHR 0x27] @ ''()*+,-./:;<=>?@['' @ [CHR 0x5C]
      @ '']^_{|}~'' @ [CHR 0x60]"

definition spec_hex_upper :: "nat \<Rightarrow> char" where
  "spec_hex_upper n = (if n < 10 then char_of (48 + n) else char_of (55 + n))"

definition spec_encode_char :: "char \<Rightarrow> string" where
  "spec_encode_char c =
     (if isalnum c \<or> c \<in> set spec_allow_list then [c]
      else [CHR ''%'', spec_hex_upper ((of_char c :: nat) div 16),
            spec_hex_upper ((of_char c :: nat) mod 16)])"

definition spec_hex_digit_value :: "char \<Rightarrow> nat" where
  "spec_hex_digit_value c =
     (if isdigit c then (of_char c :: nat) - 48
      else if isupper c then (of_char c :: nat) - 55
      else (of_char c :: nat) - 87)"

definition spec_escape_byte :: "char \<Rightarrow> char \<Rightarrow> char" where
  "spec_escape_byte h1 h2 = char_of (16 * spec_hex_digit_value h1 + spec_hex_digit_value h2)"

fun spec_percent_decode :: "string \<Rightarrow> string" where
  "spec_percent_decode (c # h1 # h2 # rest) =
     (if c = CHR ''%'' \<and> isxdigit h1 \<and> isxdigit h2
      then spec_escape_byte h1 h2 # spec_percent_decode rest
      else c # spec_percent_decode (h1 # h2 # rest))"
| "spec_percent_decode (c # rest) = c # spec_percent_decode rest"
| "spec_percent_decode [] = []"

fun has_escape :: "string \<Rightarrow> bool" where
  "has_escape (c # h1 # h2 # rest) =
     ((c = CHR ''%'' \<and> isxdigit h1 \<and> isxdigit h2) \<or> has_escape (h1 # h2 # rest))"
| "has_escape (c # rest) = False"
| "has_escape [] = False"

definition spec_percent_encode :: "string \<Rightarrow> string" where
  "spec_percent_encode x = concat (map spec_encode_char x)"

fun starts_with_two_xdigits :: "string \<Rightarrow> bool" where
  "starts_with_two_xdigits (h1 # h2 # rest) = (isxdigit h1 \<and> isxdigit h2)"
| "starts_with_two_xdigits (h1 # rest) = False"
| "starts_with_two_xdigits [] = False"

section \<open>Properties of the percent codec\<close>

lemma set_special_chars: "set special_chars = set spec_allow_list"
  by (simp add: special_chars_def spec_allow_list_def)

lemma char_eq_char_of: "(c = char_of (k::nat)) = ((of_char c :: nat) = k mod 256)"
  by (metis char_of_char of_char_of char_of_mod_256)

lemma char_of_eq_char: "(char_of (k::nat) = c) = ((of_char c :: nat) = k mod 256)"
  by (metis char_of_char of_char_of char_of_mod_256)

lemma hex_chars_all:
  "list_all (\<lambda>n. hex_chars ! n = spec_hex_upper n) [0..<16]"
  by code_simp

lemma hex_chars_nth: "n < 16 \<Longrightarrow> hex_chars ! n = spec_hex_upper n"
  using hex_chars_all by (simp add: list_all_iff)

lemma of_char_div16: "(of_char c :: nat) div 16 < 16"
proof -
  have "(of_char c :: nat) < 256" by simp
  then show ?thesis by arith
qed

lemma percent_encode_step_spec: "percent_encode_step acc c = acc @ spec_encode_char c"
  by (simp add: percent_encode_step_def spec_encode_char_def set_special_chars hex_chars_nth of_char_div16)

lemma foldl_percent_encode_step:
  "foldl percent_encode_step acc x = acc @ concat (map spec_encode_char x)"
  by (induction x arbitrary: acc) (simp_all add: percent_encode_step_spec)

lemma percent_encode_concat: "percent_encode x = concat (map spec_encode_char x)"
  by (simp add: percent_encode_def foldl_percent_encode_step)

lemma length_spec_encode_char: "length (spec_encode_char c) \<le> 3"
  by (simp add: spec_encode_char_def)

lemma length_percent_encode: "length (percent_encode x) \<le> 3 * length x"
proof (induction x)
  case Nil
  show ?case by (simp add: percent_encode_concat)
next
  case (Cons c x)
  have "length (percent_encode (c # x)) = length (spec_encode_char c) + length (percent_encode x)"
    by (simp add: percent_encode_concat)
  with Cons length_spec_encode_char [of c] show ?case by simp
qed

lemma or_push_bit_4: "b < 16 \<Longrightarrow> or (push_bit 4 a) b = 16 * a + (b::nat)"
proof -
  assume b: "b < 16"
  then have tb: "take_bit 4 b = b" by (simp add: take_bit_nat_eq_self)
  have "and (push_bit 4 a) (take_bit 4 b) = 0"
    by (rule bit_eqI) (simp add: bit_simps)
  then have "push_bit 4 a + take_bit 4 b = or (push_bit 4 a) (take_bit 4 b)"
    by (rule disjunctive_add_eq_or)
  then show ?thesis by (simp add: tb push_bit_eq_mult)
qed

lemma of_char_toupper: "islower c \<Longrightarrow> (of_char (toupper c) :: nat) = of_char c - 32"
proof -
  assume "islower c"
  moreover have "(of_char c :: nat) - 32 < 256" by (rule less_imp_diff_less) simp
  ultimately show ?thesis by (simp add: toupper_def)
qed

lemma hex_value_spec: "isxdigit c \<Longrightarrow> hex_value c = spec_hex_digit_value c"
  by (auto simp add: hex_value_def spec_hex_digit_value_def isxdigit_def isdigit_def isupper_def
        of_char_toupper islower_def toupper_def)

lemma hex_value_less: "isxdigit c \<Longrightarrow> hex_value c < 16"
  by (auto simp add: hex_value_def isxdigit_def isdigit_def
        of_char_toupper islower_def toupper_def)

lemma decode_escape_spec:
  "isxdigit h1 \<Longrightarrow> isxdigit h2 \<Longrightarrow> decode_escape h1 h2 = spec_escape_byte h1 h2"
  using hex_value_less [of h2]
  by (simp add: decode_escape_def spec_escape_byte_def or_push_bit_4 hex_value_spec)

declare percent_decode_loop.simps [simp del]

lemma spec_percent_decode_short:
  "length rest < 2 \<Longrightarrow> spec_percent_decode (c # rest) = c # spec_percent_decode rest"
  by (cases rest; cases "tl rest") auto

lemma percent_decode_loop_spec:
  "i \<le> length inp \<Longrightarrow>
   percent_decode_loop inp i decoded = decoded @ spec_percent_decode (drop i inp)"
proof (induction inp i decoded rule: percent_decode_loop.induct)
  case (1 inp i decoded)
  show ?case
  proof (cases "i < length inp")
    case False
    with "1.prems" have "i = length inp" by simp
    then show ?thesis by (simp add: percent_decode_loop.simps [of inp "length inp"])
  next
    case lt: True
    then have d0: "drop i inp = inp ! i # drop (Suc i) inp"
      by (simp add: Cons_nth_drop_Suc)
    show ?thesis
    proof (cases "i + 2 < length inp")
      case False
      then have short: "length (drop (Suc i) inp) < 2" by simp
      from False lt "1.IH"(2) have
        "percent_decode_loop inp i decoded = (decoded @ [inp ! i]) @ spec_percent_decode (drop (Suc i) inp)"
        by (simp add: percent_decode_loop.simps [of inp i])
      with short d0 show ?thesis by (simp add: spec_percent_decode_short)
    next
      case True
      then have d1: "drop (Suc i) inp = inp ! (i + 1) # drop (Suc (Suc i)) inp"
        and d2: "drop (Suc (Suc i)) inp = inp ! (i + 2) # drop (i + 3) inp"
        by (simp_all add: Cons_nth_drop_Suc numeral_3_eq_3)
      show ?thesis
      proof (cases "inp ! i = CHR ''%'' \<and> isxdigit (inp ! (i + 1)) \<and> isxdigit (inp ! (i + 2))")
        case esc: True
        with True lt "1.IH"(1) have
          "percent_decode_loop inp i decoded =
             (decoded @ [decode_escape (inp ! (i + 1)) (inp ! (i + 2))]) @ spec_percent_decode (drop (i + 3) inp)"
          by (simp add: percent_decode_loop.simps [of inp i])
        with esc d0 d1 d2 show ?thesis by (simp add: decode_escape_spec)
      next
        case noesc: False
        with True lt "1.IH"(2) have
          "percent_decode_loop inp i decoded = (decoded @ [inp ! i]) @ spec_percent_decode (drop (Suc i) inp)"
          by (auto simp add: percent_decode_loop.simps [of inp i])
        with noesc d0 d1 d2 show ?thesis by auto
      qed
    qed
  qed
qed

lemma percent_decode_spec: "percent_decode x = spec_percent_decode x"
  by (simp add: percent_decode_def percent_decode_loop_spec)

lemma isxdigit_isalnum: "isxdigit c \<Longrightarrow> isalnum c"
  by (auto simp add: isxdigit_def isalnum_def isupper_def islower_def)

lemma not_isxdigit_percent: "\<not> isxdigit CHR ''%''"
  by (simp add: isxdigit_def isdigit_def)

lemma percent_in_allow_list: "CHR ''%'' \<in> set spec_allow_list"
  by (simp add: spec_allow_list_def)

lemma isxdigit_spec_hex_upper: "n < 16 \<Longrightarrow> isxdigit (spec_hex_upper n)"
  by (auto simp add: isxdigit_def isdigit_def spec_hex_upper_def)

lemma spec_hex_digit_value_upper: "n < 16 \<Longrightarrow> spec_hex_digit_value (spec_hex_upper n) = n"
  by (auto simp add: spec_hex_digit_value_def isdigit_def isupper_def spec_hex_upper_def)

lemma spec_escape_byte_hex:
  "spec_escape_byte (spec_hex_upper ((of_char c :: nat) div 16))
     (spec_hex_upper ((of_char c :: nat) mod 16)) = c"
  by (simp add: spec_escape_byte_def spec_hex_digit_value_upper of_char_div16)

lemma spec_encode_char_head:
  "starts_with_two_xdigits (spec_percent_encode r) = starts_with_two_xdigits r"
proof (cases r)
  case Nil
  then show ?thesis by (simp add: spec_percent_encode_def)
next
  case (Cons a r')
  show ?thesis
  proof (cases "isalnum a \<or> a \<in> set spec_allow_list")
    case False
    then have "\<not> isxdigit a" using isxdigit_isalnum by blast
    with False Cons show ?thesis
      by (cases r') (simp_all add: spec_percent_encode_def spec_encode_char_def not_isxdigit_percent)
  next
    case pa: True
    show ?thesis
    proof (cases r')
      case Nil
      with pa Cons show ?thesis by (simp add: spec_percent_encode_def spec_encode_char_def)
    next
      case (Cons b r'')
      show ?thesis
      proof (cases "isalnum b \<or> b \<in> set spec_allow_list")
        case True
        with pa Cons \<open>r = a # r'\<close> show ?thesis
          by (simp add: spec_percent_encode_def spec_encode_char_def)
      next
        case False
        then have "\<not> isxdigit b" using isxdigit_isalnum by blast
        with False pa Cons \<open>r = a # r'\<close> show ?thesis
          by (simp add: spec_percent_encode_def spec_encode_char_def not_isxdigit_percent)
      qed
    qed
  qed
qed

lemma spec_percent_decode_no_escape:
  "\<not> (c = CHR ''%'' \<and> starts_with_two_xdigits r) \<Longrightarrow>
   spec_percent_decode (c # r) = c # spec_percent_decode r"
  by (cases r; cases "tl r") auto

lemma decode_encode_step:
  "spec_percent_decode (spec_percent_encode (c # r)) =
     (if c = CHR ''%'' \<and> starts_with_two_xdigits r
      then spec_escape_byte (r ! 0) (r ! 1) # spec_percent_decode (spec_percent_encode (drop 2 r))
      else c # spec_percent_decode (spec_percent_encode r))"
proof (cases "c = CHR ''%'' \<and> starts_with_two_xdigits r")
  case True
  then obtain h1 h2 rest where r: "r = h1 # h2 # rest" and x: "isxdigit h1" "isxdigit h2"
    by (cases r; cases "tl r") auto
  from x have "isalnum h1" "isalnum h2" by (simp_all add: isxdigit_isalnum)
  with True r x show ?thesis
    by (simp add: spec_percent_encode_def spec_encode_char_def percent_in_allow_list)
next
  case False
  show ?thesis
  proof (cases "isalnum c \<or> c \<in> set spec_allow_list")
    case True
    then have "spec_percent_encode (c # r) = c # spec_percent_encode r"
      by (simp add: spec_percent_encode_def spec_encode_char_def)
    moreover have "spec_percent_decode (c # spec_percent_encode r)
        = c # spec_percent_decode (spec_percent_encode r)"
      using False by (intro spec_percent_decode_no_escape) (simp add: spec_encode_char_head)
    ultimately show ?thesis using False by auto
  next
    case np: False
    then have "spec_percent_encode (c # r) =
        CHR ''%'' # spec_hex_upper ((of_char c :: nat) div 16)
          # spec_hex_upper ((of_char c :: nat) mod 16) # spec_percent_encode r"
      by (simp add: spec_percent_encode_def spec_encode_char_def)
    with False show ?thesis
      by (auto simp add: isxdigit_spec_hex_upper of_char_div16 spec_escape_byte_hex)
  qed
qed

lemma length_decode_encode:
  "length (spec_percent_decode (spec_percent_encode x)) \<le> length x"
proof (induction x rule: length_induct)
  case (1 x)
  show ?case
  proof (cases x)
    case Nil
    then show ?thesis by (simp add: spec_percent_encode_def)
  next
    case (Cons c r)
    from 1 have IH: "\<And>ys. length ys < length x \<Longrightarrow>
        length (spec_percent_decode (spec_percent_encode ys)) \<le> length ys"
      by blast
    have "length (drop 2 r) < length x" "length r < length x"
      using Cons by simp_all
    then have "length (spec_percent_decode (spec_percent_encode (drop 2 r))) \<le> length (drop 2 r)"
      and "length (spec_percent_decode (spec_percent_encode r)) \<le> length r"
      by (simp_all only: IH)
    then show ?thesis using Cons by (auto simp add: decode_encode_step)
  qed
qed

lemma decode_encode_iff:
  "spec_percent_decode (spec_percent_encode x) = x \<longleftrightarrow> \<not> has_escape x"
proof (induction x rule: has_escape.induct)
  case (1 c h1 h2 rest)
  show ?case
  proof (cases "c = CHR ''%'' \<and> isxdigit h1 \<and> isxdigit h2")
    case True
    have "length (spec_percent_decode (spec_percent_encode rest)) \<le> length rest"
      by (rule length_decode_encode)
    then have "length (spec_percent_decode (spec_percent_encode (c # h1 # h2 # rest)))
        \<noteq> length (c # h1 # h2 # rest)"
      using True by (simp add: decode_encode_step)
    then have "spec_percent_decode (spec_percent_encode (c # h1 # h2 # rest)) \<noteq> c # h1 # h2 # rest"
      by metis
    with True show ?thesis by simp
  next
    case False
    with 1 show ?thesis by (auto simp add: decode_encode_step)
  qed
qed ((simp add: decode_encode_step)?, simp add: spec_percent_encode_def)+

lemma roundtrip_iff: "percent_decode (percent_encode x) = x \<longleftrightarrow> \<not> has_escape x"
  using decode_encode_iff [of x]
  by (simp add: percent_decode_spec percent_encode_concat spec_percent_encode_def)

section \<open>The percent codec against the specification\<close>

text \<open>
  C7: \<open>percent_encode\<close> copies every alphanumeric character and every character of the
  punctuation allow-list unchanged, writes any other byte as \<open>%\<close> followed by the two
  uppercase hexadecimal digits of its value (high nibble first), and its output is at most
  three times as long as its input.
\<close>

theorem percent_encode_passes_or_escapes:
  "percent_encode x = concat (map spec_encode_char x)
   \<and> length (percent_encode x) \<le> 3 * length x"
  by (rule conjI) (rule percent_encode_concat, rule length_percent_encode)

theorem percent_encode_passes_or_escapes_witness:
  "percent_encode [CHR ''a'', CHR 0xC3, CHR '' '', CHR ''~''] = ''a%C3%20~''
   \<and> length (percent_encode [CHR ''a'', CHR 0xC3, CHR '' '', CHR ''~'']) \<le> 12"
  using percent_encode_passes_or_escapes [of "[CHR ''a'', CHR 0xC3, CHR '' '', CHR ''~'']"]
  by (simp add: spec_encode_char_def isalnum_def isdigit_def isupper_def islower_def
        spec_allow_list_def spec_hex_upper_def char_of_eq_char)

text \<open>
  C8: \<open>percent_decode\<close> is total and lenient: scanning from the left, a \<open>%\<close> followed by
  two hexadecimal digits (both inside the text) becomes the single byte they encode, and
  every other character, a \<open>%\<close> of a malformed or truncated escape included, is copied
  as it is.
\<close>

theorem percent_decode_lenient: "percent_decode x = spec_percent_decode x"
  by (rule percent_decode_spec)

theorem percent_decode_lenient_witness:
  "percent_decode ''%41%zz%4'' = ''A%zz%4'' \<and> percent_decode ''a%'' = ''a%''"
  using percent_decode_lenient [of "''%41%zz%4''"] percent_decode_lenient [of "''a%''"]
  by (simp add: isxdigit_def isdigit_def spec_escape_byte_def spec_hex_digit_value_def
        isupper_def char_of_eq_char)

text \<open>
  C2 as stated (decoding an encoded text gives the text back, for every text) fails:
  \<open>%\<close> is in the allow-list, so the text \<open>%41\<close> is encoded as itself and decoded
  to \<open>A\<close>.
\<close>

theorem percent_roundtrip_counterexample:
  "percent_decode (percent_encode ''%41'') \<noteq> ''%41''"
  by (simp add: percent_decode_spec percent_encode_concat spec_encode_char_def isalnum_def
        isdigit_def isupper_def islower_def spec_allow_list_def isxdigit_def)

text \<open>
  C2 amended: decoding an encoded text gives the text back exactly when the text contains
  no \<open>%\<close> that is followed by two hexadecimal digits.
\<close>

theorem percent_roundtrip_iff_no_escape:
  "percent_decode (percent_encode x) = x \<longleftrightarrow> \<not> has_escape x"
  by (rule roundtrip_iff)

theorem percent_roundtrip_iff_no_escape_witness:
  "percent_decode (percent_encode [CHR ''/'', CHR 0xC3, CHR 0xA9, CHR ''%'', CHR ''4''])
     = [CHR ''/'', CHR 0xC3, CHR 0xA9, CHR ''%'', CHR ''4'']"
  using percent_roundtrip_iff_no_escape [of "[CHR ''/'', CHR 0xC3, CHR 0xA9, CHR ''%'', CHR ''4'']"]
  by simp


section \<open>The separator\<close>

fun spec_first_occurrence :: "char \<Rightarrow> string \<Rightarrow> nat option" where
  "spec_first_occurrence c [] = None"
| "spec_first_occurrence c (x # xs) =
     (if x = c then Some 0 else map_option Suc (spec_first_occurrence c xs))"

definition spec_separator :: "string \<Rightarrow> char" where
  "spec_separator p =
     (case (spec_first_occurrence CHR ''/'' p, spec_first_occurrence bs p) of
        (Some i, Some j) \<Rightarrow> if i \<le> j then CHR ''/'' else bs
      | (Some i, None) \<Rightarrow> CHR ''/''
      | (None, Some j) \<Rightarrow> bs
      | (None, None) \<Rightarrow> CHR ''/'')"

lemma find_from_spec:
  "find_from c s i = (case spec_first_occurrence c s of None \<Rightarrow> npos | Some k \<Rightarrow> i + k)"
  by (induction s arbitrary: i) (auto split: option.splits)

lemma spec_first_occurrence_less: "spec_first_occurrence c s = Some k \<Longrightarrow> k < length s"
  by (induction s arbitrary: k) (auto split: if_splits)

lemma find_separator_spec:
  assumes "length p < 2 ^ 64"
  shows "find_separator p = spec_separator p"
proof -
  have lt: "k < npos" if "spec_first_occurrence c p = Some k" for c k
    using assms spec_first_occurrence_less [OF that] by (simp add: npos_def)
  show ?thesis
  proof (cases "spec_first_occurrence CHR ''/'' p")
    case None
    then show ?thesis
      by (cases "spec_first_occurrence bs p")
         (auto simp add: find_separator_def find_char_def find_from_spec spec_separator_def bs_def
            dest: lt [of bs, unfolded bs_def])
  next
    case (Some i)
    with lt [OF Some] show ?thesis
      by (cases "spec_first_occurrence bs p")
         (auto simp add: find_separator_def find_char_def find_from_spec spec_separator_def bs_def)
  qed
qed

lemma make_pattern_top_separator:
  "make_pattern_top p keys =
     (let sep = find_separator p;
          (pat, ks) = make_pattern (percent_encode p) keys sep
      in (''^'' @ (if pat = [] \<or> last pat \<noteq> sep then pat @ [bs, sep] else pat) @ ''?$'', ks))"
  by (simp add: make_pattern_top_def Let_def split: prod.splits)

text \<open>
  C6: for every raw pattern (shorter than \<open>2^64\<close> bytes, as every \<open>std::string\<close> is) the
  separator detector returns \<open>/\<close> when the first \<open>/\<close> stands at or before the first
  backslash, also when the pattern has neither, and the backslash otherwise; the compiled
  pattern is built with this one separator, in the parameter captures and in the optional
  trailing separator.
\<close>

theorem find_separator_first_of_slash_backslash:
  "length p < 2 ^ 64 \<Longrightarrow>
   find_separator p = spec_separator p
   \<and> make_pattern_top p keys =
       (let sep = spec_separator p;
            (pat, ks) = make_pattern (percent_encode p) keys sep
        in (''^'' @ (if pat = [] \<or> last pat \<noteq> sep then pat @ [bs, sep] else pat) @ ''?$'', ks))"
  by (simp add: find_separator_spec make_pattern_top_separator)

lemma make_pattern_drive_foo: "make_pattern (''C:'' @ [bs] @ '':foo/'') [] bs = (''C:'' @ [bs, bs] @ ''([^'' @ [bs, bs] @ '']+?)/'', [''foo''])"
  by code_simp

theorem find_separator_first_of_slash_backslash_witness:
  "find_separator (''C:'' @ [bs] @ '':foo/'') = bs
   \<and> find_separator ''a/b'' = CHR ''/'' \<and> find_separator ''abc'' = CHR ''/''
   \<and> make_pattern_top (''C:'' @ [bs] @ '':foo/'') [] =
        (''^C:'' @ [bs, bs] @ ''([^'' @ [bs, bs] @ '']+?)/'' @ [bs, bs] @ ''?$'', [''foo''])"
proof -
  have l: "length (''C:'' @ [bs] @ '':foo/'') < 2 ^ 64" "length ''a/b'' < 2 ^ 64" "length ''abc'' < 2 ^ 64"
    by simp_all
  have e: "percent_encode (''C:'' @ [bs] @ '':foo/'') = ''C:'' @ [bs] @ '':foo/''" by code_simp
  show ?thesis
    using find_separator_first_of_slash_backslash [OF l(1), of "[]"]
      find_separator_first_of_slash_backslash [OF l(2), of "[]"]
      find_separator_first_of_slash_backslash [OF l(3), of "[]"]
    by (simp add: spec_separator_def bs_def Let_def make_pattern_drive_foo [unfolded bs_def, simplified] e [unfolded bs_def, simplified])
qed

section \<open>Matchers\<close>

subsection \<open>Evaluating the entry point\<close>

lemma make_pattern_top_eval:
  "percent_encode p = e \<Longrightarrow> find_separator p = sep \<Longrightarrow> make_pattern e ks sep = (pat, ks') \<Longrightarrow>
   make_pattern_top p ks =
     (''^'' @ (if pat = [] \<or> last pat \<noteq> sep then pat @ [bs, sep] else pat) @ ''?$'', ks')"
  by (simp add: make_pattern_top_def Let_def)

lemma match_eval:
  "make_pattern_top p [] = (pat, ks) \<Longrightarrow> regex_parse pat = Inr (r, n) \<Longrightarrow>
   match p sens = Inr \<lparr>m_pattern = pat,
       m_regex = \<lparr>re_ast = r, re_marks = n, re_icase = (sens = case_insensitive)\<rparr>,
       m_keys = ks\<rparr>"
  by (cases sens) (simp_all add: match_def matcher_new_def regex_new_def make_regex_flags_def)

lemma rmatch_rep_max_zero: "rmatch ic s (Rep mn (Some 0) g r) st = [st]"
  by (subst rmatch.simps(11)) simp

lemma rmatch_optional_char:
  "rmatch ic s (Rep 0 (Some (Suc 0)) True (Chr c)) st =
     (case fst st of
        [] \<Rightarrow> [st]
      | x # xs \<Rightarrow> if char_eq ic c x then [(xs, snd st), st] else [st])"
  by (subst rmatch.simps(11))
     (cases st; cases "fst st"; simp add: one_char_def rmatch_rep_max_zero reset_caps_def)

subsection \<open>The empty pattern\<close>

definition empty_pattern_ast :: regex where
  "empty_pattern_ast = Seq Bol (Seq (Rep 0 (Some 1) True (Chr CHR ''/'')) (Seq Eol Epsilon))"

lemma make_pattern_empty: "make_pattern [] [] CHR ''/'' = ([], [])"
  by code_simp

lemma make_pattern_top_empty: "make_pattern_top [] [] = (''^'' @ [bs] @ ''/?$'', [])"
  using make_pattern_top_eval [of "[]" "[]" "CHR ''/''" "[]" "[]" "[]"]
  by (simp add: percent_encode_def find_separator_def find_char_def make_pattern_empty)

lemma regex_parse_empty_pattern:
  "regex_parse (''^'' @ [bs] @ ''/?$'') = Inr (empty_pattern_ast, 0)"
  by code_simp

lemma match_empty:
  "match [] sens = Inr \<lparr>m_pattern = ''^'' @ [bs] @ ''/?$'',
       m_regex = \<lparr>re_ast = empty_pattern_ast, re_marks = 0, re_icase = (sens = case_insensitive)\<rparr>,
       m_keys = []\<rparr>"
  by (rule match_eval [OF make_pattern_top_empty regex_parse_empty_pattern])

lemma tolower_slash: "tolower x = CHR ''/'' \<longleftrightarrow> x = CHR ''/''"
  by (auto simp add: tolower_def isupper_def char_of_eq_char)

lemma char_eq_slash: "char_eq ic CHR ''/'' x \<longleftrightarrow> x = CHR ''/''"
  using tolower_slash [of x] tolower_slash [of "CHR ''/''"] by (auto simp add: char_eq_def)

lemma regex_match_empty_pattern:
  "regex_match \<lparr>re_ast = empty_pattern_ast, re_marks = 0, re_icase = ic\<rparr> s \<noteq> None
     \<longleftrightarrow> s = [] \<or> s = ''/''"
  by (cases s; cases "tl s")
     (auto simp add: regex_match_def match_here_def empty_pattern_ast_def rmatch_optional_char
        char_eq_slash split: list.splits)

lemma percent_encode_eq_Nil: "percent_encode x = [] \<longleftrightarrow> x = []"
  by (cases x) (simp_all add: percent_encode_concat spec_encode_char_def)

lemma percent_encode_eq_slash: "percent_encode x = ''/'' \<longleftrightarrow> x = ''/''"
proof (cases x)
  case Nil
  then show ?thesis by (simp add: percent_encode_concat)
next
  case (Cons c r)
  have "percent_encode (c # r) = spec_encode_char c @ percent_encode r"
    by (simp add: percent_encode_concat)
  with Cons show ?thesis
    by (auto simp add: spec_encode_char_def percent_encode_eq_Nil spec_allow_list_def
          split: if_splits)
qed

lemma empty_pattern_matcher_call:
  assumes "m = \<lparr>m_pattern = ''^'' @ [bs] @ ''/?$'',
       m_regex = \<lparr>re_ast = empty_pattern_ast, re_marks = 0, re_icase = (sens = case_insensitive)\<rparr>,
       m_keys = []\<rparr>"
  shows "matched (matcher_call m path) = (path = [] \<or> path = ''/'')
      \<and> params (matcher_call m path) = Map.empty"
  using assms regex_match_empty_pattern [of "sens = case_insensitive" "percent_encode path"]
  by (auto simp add: matcher_call_def Let_def percent_encode_eq_Nil percent_encode_eq_slash
        split: option.splits)

text \<open>
  C10: compiling the empty pattern succeeds, and the matcher it gives matches exactly the
  paths \<open>""\<close> and \<open>"/"\<close>, always with an empty parameter mapping.
\<close>

theorem empty_pattern_matches_only_empty_and_slash:
  "case match [] sens of
     Inl e \<Rightarrow> False
   | Inr m \<Rightarrow> \<forall>path. matched (matcher_call m path) = (path = [] \<or> path = ''/'')
               \<and> params (matcher_call m path) = Map.empty"
  using empty_pattern_matcher_call [OF refl, of sens] by (simp add: match_empty)

subsection \<open>Binding keys to sub-matches\<close>

lemma fold_params_dom:
  "dom (fold (\<lambda>i ps. ps(ks ! i \<mapsto> f i)) [0..<n] M) = dom M \<union> (\<lambda>i. ks ! i) ` {..<n}"
proof (induction n)
  case 0
  show ?case by simp
next
  case (Suc n)
  have "dom (fold (\<lambda>i ps. ps(ks ! i \<mapsto> f i)) [0..<Suc n] M)
      = insert (ks ! n) (dom (fold (\<lambda>i ps. ps(ks ! i \<mapsto> f i)) [0..<n] M))"
    by simp
  also have "\<dots> = insert (ks ! n) (dom M \<union> (\<lambda>i. ks ! i) ` {..<n})"
    by (simp only: Suc)
  also have "\<dots> = dom M \<union> (\<lambda>i. ks ! i) ` {..<Suc n}"
    by (auto simp add: lessThan_Suc)
  finally show ?case .
qed

lemma fold_params_last:
  "i < n \<Longrightarrow> \<forall>j. i < j \<and> j < n \<longrightarrow> ks ! j \<noteq> ks ! i \<Longrightarrow>
   fold (\<lambda>i ps. ps(ks ! i \<mapsto> f i)) [0..<n] M (ks ! i) = Some (f i)"
proof (induction n)
  case 0
  then show ?case by simp
next
  case (Suc n)
  show ?case
  proof (cases "i = n")
    case True
    then show ?thesis by simp
  next
    case False
    with Suc.prems(1) have lt: "i < n" by simp
    with Suc.prems(2) have "ks ! n \<noteq> ks ! i" by blast
    with lt have "i < n" "ks ! i \<noteq> ks ! n" by simp_all
    moreover from Suc.prems have "\<forall>j. i < j \<and> j < n \<longrightarrow> ks ! j \<noteq> ks ! i" by simp
    ultimately show ?thesis using Suc.IH by simp
  qed
qed

lemma matcher_call_matched:
  "matched (matcher_call m path) = (regex_match (m_regex m) (percent_encode path) \<noteq> None)"
  by (simp add: matcher_call_def Let_def split: option.splits)

lemma matcher_call_unmatched:
  "\<not> matched (matcher_call m path) \<Longrightarrow> params (matcher_call m path) = Map.empty"
  by (simp add: matcher_call_def Let_def split: option.splits)

lemma matcher_call_dom:
  "matched (matcher_call m path) \<Longrightarrow> dom (params (matcher_call m path)) = set (m_keys m)"
  by (auto simp add: matcher_call_def Let_def fold_params_dom set_conv_nth split: option.splits)

lemma matcher_call_last:
  assumes "regex_match (m_regex m) (percent_encode path) = Some mr"
    and "i < length (m_keys m)"
    and "\<forall>j. i < j \<and> j < length (m_keys m) \<longrightarrow> m_keys m ! j \<noteq> m_keys m ! i"
  shows "params (matcher_call m path) (m_keys m ! i) = Some (percent_decode (str (sub mr (i + 1))))"
  using assms fold_params_last [OF assms(2,3), of "\<lambda>i. percent_decode (str (sub mr (i + 1)))" Map.empty]
  by (simp add: matcher_call_def Let_def)

lemma percent_decode_Nil: "percent_decode [] = []"
  by (simp add: percent_decode_spec)

text \<open>
  C5: evaluating a matcher is a total function: the result is matched exactly when the
  encoded path satisfies the compiled pattern, a path that does not satisfy it gives
  \<open>matched = false\<close> with an empty parameter mapping, and parameters are present only
  when \<open>matched\<close> is true.
\<close>

theorem matcher_call_total:
  "matched (matcher_call m path) = (regex_match (m_regex m) (percent_encode path) \<noteq> None)
   \<and> (\<not> matched (matcher_call m path) \<longrightarrow> params (matcher_call m path) = Map.empty)
   \<and> (params (matcher_call m path) \<noteq> Map.empty \<longrightarrow> matched (matcher_call m path))"
  using matcher_call_matched [of m path] matcher_call_unmatched [of m path] by blast

subsection \<open>Concrete matchers\<close>

definition foo_ast :: regex where
  "foo_ast = Seq Bol (Seq (Chr CHR ''/'') (Seq (Chr CHR ''f'') (Seq (Chr CHR ''o'')
     (Seq (Chr CHR ''o'') (Seq (Rep 0 (Some 1) True (Chr CHR ''/'')) (Seq Eol Epsilon))))))"

definition foo_matcher :: matcher where
  "foo_matcher = \<lparr>m_pattern = ''^/foo'' @ [bs] @ ''/?$'',
       m_regex = \<lparr>re_ast = foo_ast, re_marks = 0, re_icase = False\<rparr>, m_keys = []\<rparr>"

lemma make_pattern_foo: "make_pattern ''/foo'' [] CHR ''/'' = (''/foo'', [])"
  by code_simp

lemma make_pattern_top_foo: "make_pattern_top ''/foo'' [] = (''^/foo'' @ [bs] @ ''/?$'', [])"
proof -
  have "percent_encode ''/foo'' = ''/foo''" by code_simp
  moreover have "find_separator ''/foo'' = CHR ''/''"
    by (simp add: find_separator_def find_char_def npos_def)
  ultimately show ?thesis
    using make_pattern_top_eval [OF _ _ make_pattern_foo] by simp
qed

lemma regex_parse_foo: "regex_parse (''^/foo'' @ [bs] @ ''/?$'') = Inr (foo_ast, 0)"
  by code_simp

lemma match_foo: "match ''/foo'' case_sensitive = Inr foo_matcher"
  using match_eval [OF make_pattern_top_foo regex_parse_foo, of case_sensitive]
  by (simp add: foo_matcher_def)

lemma regex_match_foo_bar: "regex_match (m_regex foo_matcher) (percent_encode ''/bar'') = None"
  by code_simp

theorem matcher_call_total_witness:
  "match ''/foo'' case_sensitive = Inr foo_matcher
   \<and> \<not> matched (matcher_call foo_matcher ''/bar'')
   \<and> params (matcher_call foo_matcher ''/bar'') = Map.empty"
  using matcher_call_total [of foo_matcher "''/bar''"] match_foo regex_match_foo_bar by simp

text \<open>
  C1 as stated (\<open>pattern()\<close> is the text the user compiled) fails: \<open>match\<close> hands the
  compiled regex to the constructor of \<open>matcher\<close>, which stores it in \<open>m_pattern\<close>, and
  \<open>pattern()\<close> returns that.  For \<open>/foo\<close> it is \<open>^/foo\/?$\<close>.
\<close>

theorem pattern_is_not_the_original_counterexample:
  "match ''/foo'' case_sensitive = Inr foo_matcher
   \<and> pattern foo_matcher = ''^/foo'' @ [bs] @ ''/?$''
   \<and> pattern foo_matcher \<noteq> ''/foo''"
  using match_foo by (simp add: pattern_def foo_matcher_def)

text \<open>
  C1 amended: for every raw pattern and case-sensitivity setting for which compilation
  succeeds, \<open>pattern()\<close> of the matcher is the compiled low-level regex built from the
  pattern, a text that starts with \<open>^\<close> and ends with \<open>?$\<close>.
\<close>

theorem pattern_is_the_compiled_regex:
  "match p sens = Inr m \<Longrightarrow>
   pattern m = fst (make_pattern_top p [])
   \<and> take 1 (pattern m) = ''^'' \<and> drop (length (pattern m) - 2) (pattern m) = ''?$''"
  by (auto simp add: match_def matcher_new_def pattern_def make_pattern_top_def Let_def
        split: prod.splits sum.splits)

theorem pattern_is_the_compiled_regex_witness:
  "match ''/foo'' case_sensitive = Inr foo_matcher
   \<and> pattern foo_matcher = fst (make_pattern_top ''/foo'' [])
   \<and> pattern foo_matcher = ''^/foo'' @ [bs] @ ''/?$''"
  using pattern_is_the_compiled_regex [OF match_foo] match_foo
  by (simp add: make_pattern_top_foo)

definition opt_foo_ast :: regex where
  "opt_foo_ast = Seq Bol
     (Seq (Rep 0 (Some 1) True
            (NGroup (Seq (Chr CHR ''/'')
                      (Seq (Group 1 (Seq (Rep 1 None False (Cls True [CChar CHR ''/''])) Epsilon))
                        Epsilon))))
       (Seq (Rep 0 (Some 1) True (Chr CHR ''/'')) (Seq Eol Epsilon)))"

definition opt_foo_matcher :: matcher where
  "opt_foo_matcher = \<lparr>m_pattern = ''^(?:/([^'' @ [bs] @ ''/]+?))?'' @ [bs] @ ''/?$'',
       m_regex = \<lparr>re_ast = opt_foo_ast, re_marks = 1, re_icase = False\<rparr>, m_keys = [''foo'']\<rparr>"

lemma make_pattern_opt_foo:
  "make_pattern ''{/:foo}'' [] CHR ''/'' = (''(?:/([^'' @ [bs] @ ''/]+?))?'', [''foo''])"
  by code_simp

lemma make_pattern_top_opt_foo:
  "make_pattern_top ''{/:foo}'' [] = (''^(?:/([^'' @ [bs] @ ''/]+?))?'' @ [bs] @ ''/?$'', [''foo''])"
proof -
  have "percent_encode ''{/:foo}'' = ''{/:foo}''" by code_simp
  moreover have "find_separator ''{/:foo}'' = CHR ''/''"
    by (simp add: find_separator_def find_char_def npos_def)
  ultimately show ?thesis
    using make_pattern_top_eval [OF _ _ make_pattern_opt_foo] by (simp add: bs_def)
qed

lemma regex_parse_opt_foo:
  "regex_parse (''^(?:/([^'' @ [bs] @ ''/]+?))?'' @ [bs] @ ''/?$'') = Inr (opt_foo_ast, 1)"
  by code_simp

lemma match_opt_foo: "match ''{/:foo}'' case_sensitive = Inr opt_foo_matcher"
  using match_eval [OF make_pattern_top_opt_foo regex_parse_opt_foo, of case_sensitive]
  by (simp add: opt_foo_matcher_def)

lemma regex_match_opt_foo_empty:
  "regex_match (m_regex opt_foo_matcher) (percent_encode []) = Some \<lparr>position = 0, subs = [Some [], None]\<rparr>"
  by code_simp

lemma regex_match_opt_foo_x:
  "regex_match (m_regex opt_foo_matcher) (percent_encode ''/x'')
     = Some \<lparr>position = 0, subs = [Some ''/x'', Some ''x'']\<rparr>"
  by code_simp

lemma matcher_call_opt_foo_empty:
  "matcher_call opt_foo_matcher [] = \<lparr>matched = True, params = [''foo'' \<mapsto> []]\<rparr>"
  by (simp add: matcher_call_def regex_match_opt_foo_empty Let_def)
     (simp add: opt_foo_matcher_def sub_def str_def percent_decode_Nil)

lemma matcher_call_opt_foo_x:
  "matcher_call opt_foo_matcher ''/x'' = \<lparr>matched = True, params = [''foo'' \<mapsto> ''x'']\<rparr>"
proof -
  have "percent_decode ''x'' = ''x''" by code_simp
  then show ?thesis
    by (simp add: matcher_call_def regex_match_opt_foo_x Let_def)
       (simp add: opt_foo_matcher_def sub_def str_def)
qed

section \<open>The compiled pattern and the expression the engine parses from it\<close>

subsection \<open>Parsing a group in any context\<close>

text \<open>
  A custom sub-pattern \<open>(c)\<close> whose text \<open>c\<close> holds no \<open>)\<close> is parsed in the same way
  wherever it stands.  While the parser reads it on its own, beginning in the initial
  state, it goes through states \<open>\<tau>\<close>; beginning in a state \<open>b\<close> it goes through the states
  \<open>lift b \<tau>\<close>, in which the groups are numbered after those of \<open>b\<close> and the group that was
  opened first closes into the alternative that was current in \<open>b\<close>.
\<close>

fun lift_stack ::
  "pstate \<Rightarrow> (nat option \<times> regex list \<times> regex list) list
     \<Rightarrow> (nat option \<times> regex list \<times> regex list) list" where
  "lift_stack b [] = stack b"
| "lift_stack b [f] = (map_option (\<lambda>g. g + ngroups b) (fst f), alts b, cur b) # stack b"
| "lift_stack b (f # f' # fs) =
     (map_option (\<lambda>g. g + ngroups b) (fst f), snd f) # lift_stack b (f' # fs)"

definition lift :: "pstate \<Rightarrow> pstate \<Rightarrow> pstate" where
  "lift b \<tau> = \<tau>\<lparr>stack := lift_stack b (stack \<tau>), ngroups := ngroups \<tau> + ngroups b\<rparr>"

definition lift_result :: "pstate \<Rightarrow> regex_error + pstate \<Rightarrow> regex_error + pstate" where
  "lift_result b x = (case x of Inl e \<Rightarrow> Inl e | Inr \<tau> \<Rightarrow> Inr (lift b \<tau>))"

definition grows :: "pstate \<Rightarrow> regex_error + pstate \<Rightarrow> bool" where
  "grows \<tau> x \<longleftrightarrow> (case x of Inl e \<Rightarrow> True | Inr \<tau>' \<Rightarrow> \<exists>fs. stack \<tau>' = fs @ stack \<tau>)"

lemma lift_stack_Cons:
  "fs \<noteq> [] \<Longrightarrow> lift_stack b (f # fs) = (map_option (\<lambda>g. g + ngroups b) (fst f), snd f) # lift_stack b fs"
  by (cases fs) simp_all

lemma lift_simps:
  "alts (lift b \<tau>) = alts \<tau>" "cur (lift b \<tau>) = cur \<tau>" "mode (lift b \<tau>) = mode \<tau>"
  "ngroups (lift b \<tau>) = ngroups \<tau> + ngroups b" "stack (lift b \<tau>) = lift_stack b (stack \<tau>)"
  by (simp_all add: lift_def)

lemma lift_update:
  "lift b (\<tau>\<lparr>mode := md\<rparr>) = (lift b \<tau>)\<lparr>mode := md\<rparr>"
  "lift b (\<tau>\<lparr>cur := cs\<rparr>) = (lift b \<tau>)\<lparr>cur := cs\<rparr>"
  "lift b (\<tau>\<lparr>alts := as\<rparr>) = (lift b \<tau>)\<lparr>alts := as\<rparr>"
  by (simp_all add: lift_def)

lemma push_lift: "push a (lift b \<tau>) = lift_result b (push a \<tau>)"
  by (simp add: push_def lift_result_def lift_def)

lemma push_grows: "grows \<tau> (push a \<tau>)"
  by (simp add: push_def grows_def)

lemma quantify_lift: "quantify mn mx (lift b \<tau>) = lift_result b (quantify mn mx \<tau>)"
  by (simp add: quantify_def lift_result_def lift_def split: list.splits regex.splits)

lemma quantify_grows: "grows \<tau> (quantify mn mx \<tau>)"
  by (simp add: quantify_def grows_def split: list.splits regex.splits)

lemma question_lift: "question (lift b \<tau>) = lift_result b (question \<tau>)"
  by (simp add: question_def quantify_lift lift_simps lift_result_def lift_update
      split: list.splits regex.splits)

lemma question_grows: "grows \<tau> (question \<tau>)"
  using quantify_grows [of \<tau> 0 "Some 1"]
  by (simp add: question_def grows_def split: list.splits regex.splits)




lemma lift_result_simps:
  "lift_result b (Inl e) = Inl e" "lift_result b (Inr \<tau>) = Inr (lift b \<tau>)"
  by (simp_all add: lift_result_def)

lemma grows_simps:
  "grows \<tau> (Inl e)" "grows \<tau> (Inr \<tau>') \<longleftrightarrow> (\<exists>fs. stack \<tau>' = fs @ stack \<tau>)"
  by (simp_all add: grows_def)

lemma open_group_lift:
  "stack \<tau> \<noteq> [] \<Longrightarrow>
   open_group (map_option (\<lambda>g. g + ngroups b) k) (lift b \<tau>) = lift b (open_group k \<tau>)"
  by (simp add: open_group_def lift_def lift_stack_Cons)

lemma step_normal_lift:
  "c \<noteq> CHR '')'' \<Longrightarrow> step_normal (lift b \<tau>) c = lift_result b (step_normal \<tau> c)"
  unfolding step_normal_def
  by (simp add: push_lift quantify_lift question_lift lift_result_simps lift_update lift_simps)

lemma step_normal_grows: "c \<noteq> CHR '')'' \<Longrightarrow> grows \<tau> (step_normal \<tau> c)"
  unfolding step_normal_def
  by (simp add: push_grows quantify_grows question_grows grows_simps)

lemma step_escape_lift: "step_escape (lift b \<tau>) c = lift_result b (step_escape \<tau> c)"
  unfolding step_escape_def
  by (cases "class_escape c"; cases "control_escape c")
     (simp_all add: push_lift lift_result_simps)

lemma step_escape_grows: "grows \<tau> (step_escape \<tau> c)"
  unfolding step_escape_def
  by (cases "class_escape c"; cases "control_escape c")
     (simp_all add: push_grows grows_simps)

lemma bracket_char_lift:
  "bracket_char (lift b \<tau>) neg items c = lift_result b (bracket_char \<tau> neg items c)"
  unfolding bracket_char_def
  by (simp add: push_lift lift_result_simps lift_update lift_simps split: list.splits citem.splits)

lemma bracket_char_grows: "grows \<tau> (bracket_char \<tau> neg items c)"
  unfolding bracket_char_def
  by (simp add: push_grows grows_simps split: list.splits citem.splits)

lemma step_bracket_lift:
  "step_bracket (lift b \<tau>) neg items bm c = lift_result b (step_bracket \<tau> neg items bm c)"
  unfolding step_bracket_def
  by (cases bm; cases "class_escape c"; cases "control_escape c")
     (simp_all add: bracket_char_lift push_lift lift_result_simps lift_update lift_simps)

lemma step_bracket_grows: "grows \<tau> (step_bracket \<tau> neg items bm c)"
  unfolding step_bracket_def
  by (cases bm; cases "class_escape c"; cases "control_escape c")
     (simp_all add: bracket_char_grows push_grows grows_simps)

lemma step_brace_min_lift:
  "step_brace_min (lift b \<tau>) acc c = lift_result b (step_brace_min \<tau> acc c)"
  unfolding step_brace_min_def
  by (cases acc) (simp_all add: quantify_lift lift_result_simps lift_update)

lemma step_brace_min_grows: "grows \<tau> (step_brace_min \<tau> acc c)"
  unfolding step_brace_min_def
  by (cases acc) (simp_all add: quantify_grows grows_simps)

lemma step_brace_max_lift:
  "step_brace_max (lift b \<tau>) n acc c = lift_result b (step_brace_max \<tau> n acc c)"
  unfolding step_brace_max_def
  by (cases acc) (simp_all add: quantify_lift lift_result_simps lift_update)

lemma step_brace_max_grows: "grows \<tau> (step_brace_max \<tau> n acc c)"
  unfolding step_brace_max_def
  by (cases acc) (simp_all add: quantify_grows grows_simps)


lemma open_capturing_lift:
  "stack \<tau> \<noteq> [] \<Longrightarrow>
   open_group (Some (Suc (ngroups \<tau> + ngroups b))) ((lift b \<tau>)\<lparr>ngroups := Suc (ngroups \<tau> + ngroups b)\<rparr>)
     = lift b (open_group (Some (Suc (ngroups \<tau>))) (\<tau>\<lparr>ngroups := Suc (ngroups \<tau>)\<rparr>))"
  by (simp add: open_group_def lift_def lift_stack_Cons)

lemma open_noncapturing_lift:
  "stack \<tau> \<noteq> [] \<Longrightarrow> open_group None (lift b \<tau>) = lift b (open_group None \<tau>)"
  by (simp add: open_group_def lift_def lift_stack_Cons)

lemma grows_open:
  "grows (open_group k \<tau>1) x \<Longrightarrow> stack \<tau>1 = stack \<tau> \<Longrightarrow> grows \<tau> x"
  by (cases x) (auto simp add: grows_def open_group_def)

lemma step_lift:
  assumes "stack \<tau> \<noteq> []" and "c \<noteq> CHR '')''"
  shows "step (lift b \<tau>) c = lift_result b (step \<tau> c)"
proof (cases "mode \<tau>")
  case Normal
  then show ?thesis using assms by (simp add: step_def lift_simps step_normal_lift)
next
  case Escape
  then show ?thesis by (simp add: step_def lift_simps step_escape_lift)
next
  case AfterParen
  then show ?thesis
    using assms
    by (simp add: step_def lift_simps open_capturing_lift step_normal_lift lift_result_simps
          lift_update)
next
  case AfterParenQ
  then show ?thesis
    using assms
    by (simp add: step_def lift_simps open_noncapturing_lift lift_result_simps)
next
  case (Bracket neg items bm)
  then show ?thesis by (simp add: step_def lift_simps step_bracket_lift)
next
  case (BraceMin acc)
  then show ?thesis by (simp add: step_def lift_simps step_brace_min_lift)
next
  case (BraceMax n acc)
  then show ?thesis by (simp add: step_def lift_simps step_brace_max_lift)
qed

lemma step_grows:
  assumes "c \<noteq> CHR '')''"
  shows "grows \<tau> (step \<tau> c)"
proof (cases "mode \<tau>")
  case Normal
  then show ?thesis using assms by (simp add: step_def step_normal_grows)
next
  case Escape
  then show ?thesis by (simp add: step_def step_escape_grows)
next
  case AfterParen
  have "grows \<tau> (step_normal (open_group (Some (Suc (ngroups \<tau>))) (\<tau>\<lparr>ngroups := Suc (ngroups \<tau>)\<rparr>)) c)"
    by (rule grows_open [OF step_normal_grows [OF assms]]) simp
  with AfterParen show ?thesis by (simp add: step_def grows_simps)
next
  case AfterParenQ
  then show ?thesis by (simp add: step_def grows_simps open_group_def)
next
  case (Bracket neg items bm)
  then show ?thesis by (simp add: step_def step_bracket_grows)
next
  case (BraceMin acc)
  then show ?thesis by (simp add: step_def step_brace_min_grows)
next
  case (BraceMax n acc)
  then show ?thesis by (simp add: step_def step_brace_max_grows)
qed

lemma run_lift:
  "stack \<tau> \<noteq> [] \<Longrightarrow> CHR '')'' \<notin> set cs \<Longrightarrow>
   run (Inr (lift b \<tau>)) cs = lift_result b (run (Inr \<tau>) cs) \<and> grows \<tau> (run (Inr \<tau>) cs)"
proof (induction cs arbitrary: \<tau>)
  case Nil
  show ?case by (simp add: lift_result_simps grows_simps)
next
  case (Cons c cs)
  from Cons.prems have c: "c \<noteq> CHR '')''" and cs: "CHR '')'' \<notin> set cs" by auto
  note sl = step_lift [OF Cons.prems(1) c, of b]
  note sg = step_grows [OF c, of \<tau>]
  show ?case
  proof (cases "step \<tau> c")
    case (Inl e)
    with sl show ?thesis by (simp add: lift_result_simps grows_simps)
  next
    case (Inr \<tau>')
    with sg obtain fs where fs: "stack \<tau>' = fs @ stack \<tau>" by (auto simp add: grows_simps)
    with Cons.prems(1) have ne: "stack \<tau>' \<noteq> []" by simp
    from Cons.IH [OF ne cs] have
      a: "run (Inr (lift b \<tau>')) cs = lift_result b (run (Inr \<tau>') cs)"
      and g: "grows \<tau>' (run (Inr \<tau>') cs)" by simp_all
    have "grows \<tau> (run (Inr \<tau>') cs)"
      using g fs by (cases "run (Inr \<tau>') cs") (auto simp add: grows_simps)
    with a sl Inr show ?thesis by (simp add: lift_result_simps)
  qed
qed


text \<open>
  \<open>add_atoms atoms n \<sigma>\<close> is the state \<open>\<sigma>\<close> after the parser has added the terms \<open>atoms\<close>
  (latest first) to the current alternative and has opened and closed \<open>n\<close> capturing groups.
\<close>

definition add_atoms :: "regex list \<Rightarrow> nat \<Rightarrow> pstate \<Rightarrow> pstate" where
  "add_atoms atoms n \<sigma> = \<sigma>\<lparr>cur := atoms @ cur \<sigma>, ngroups := ngroups \<sigma> + n\<rparr>"

fun regroup :: "nat \<Rightarrow> regex \<Rightarrow> regex" where
  "regroup k (Group i r) = Group (i + k) r"
| "regroup k r = r"

lemma run_Inl: "run (Inl e) cs = Inl e"
  by (cases cs) simp_all

lemma run_Nil: "run x [] = x"
  by (cases x) simp_all

lemma run_snoc: "run x (cs @ [c]) = (case run x cs of Inl e \<Rightarrow> Inl e | Inr \<tau> \<Rightarrow> step \<tau> c)"
proof (induction cs arbitrary: x)
  case Nil
  show ?case by (cases x) (simp_all add: run_Nil)
next
  case (Cons a cs)
  show ?case by (cases x) (simp_all add: Cons)
qed

lemma final_close:
  assumes "step \<tau> (CHR '')'') = Inr \<tau>'" and "finish \<tau>' = Inr (ast, n)" and "stack \<tau> \<noteq> []"
  shows "mode \<tau> = Normal \<and> (\<exists>f. stack \<tau> = [f])"
proof (cases "mode \<tau>")
  case Normal
  with assms show ?thesis
    by (cases "stack \<tau>")
       (auto simp add: step_def step_normal_def close_group_def finish_def split: if_splits)
next
  case Escape
  with assms show ?thesis
    by (auto simp add: step_def step_escape_def class_escape_def control_escape_def isdigit_def
          push_def finish_def split: if_splits)
next
  case AfterParen
  with assms show ?thesis
    by (auto simp add: step_def step_normal_def close_group_def open_group_def finish_def
          split: if_splits)
next
  case AfterParenQ
  with assms show ?thesis by (auto simp add: step_def)
next
  case (Bracket neg items bm)
  with assms show ?thesis
    by (cases bm)
       (auto simp add: step_def step_bracket_def bracket_char_def class_escape_def
          control_escape_def isdigit_def finish_def split: if_splits)
next
  case (BraceMin acc)
  with assms show ?thesis
    by (cases acc) (auto simp add: step_def step_brace_min_def isdigit_def)
next
  case (BraceMax k acc)
  with assms show ?thesis
    by (cases acc) (auto simp add: step_def step_brace_max_def isdigit_def)
qed


lemma run_group_body:
  assumes entry: "stack \<tau>e = [(g, [], [])]"
    and fin: "(case run (Inr \<tau>e) (cr @ '')'') of Inl e \<Rightarrow> Inl e | Inr \<tau> \<Rightarrow> finish \<tau>) = Inr (ast, n)"
    and np: "CHR '')'' \<notin> set cr" and md: "mode \<sigma> = Normal"
  shows "\<exists>r. ast = Seq (case g of None \<Rightarrow> NGroup r | Some i \<Rightarrow> Group i r) Epsilon
           \<and> run (Inr (lift \<sigma> \<tau>e)) (cr @ '')'')
               = Inr (add_atoms [case g of None \<Rightarrow> NGroup r | Some i \<Rightarrow> Group (i + ngroups \<sigma>) r] n \<sigma>)"
proof -
  from entry have ne: "stack \<tau>e \<noteq> []" by simp
  note rl = run_lift [OF ne np, of \<sigma>]
  from fin obtain \<tau>0 where r0: "run (Inr \<tau>e) cr = Inr \<tau>0"
    by (cases "run (Inr \<tau>e) cr") (simp_all add: run_snoc)
  with rl obtain fs where st0: "stack \<tau>0 = fs @ [(g, [], [])]"
    by (auto simp add: grows_simps entry)
  from rl r0 have l0: "run (Inr (lift \<sigma> \<tau>e)) cr = Inr (lift \<sigma> \<tau>0)"
    by (simp add: lift_result_simps)
  from fin r0 obtain \<tau>f where sf: "step \<tau>0 (CHR '')'') = Inr \<tau>f" and ff: "finish \<tau>f = Inr (ast, n)"
    by (cases "step \<tau>0 (CHR '')'')") (simp_all add: run_snoc)
  from st0 have "stack \<tau>0 \<noteq> []" by simp
  from final_close [OF sf ff this] st0 have m0: "mode \<tau>0 = Normal" and s0: "stack \<tau>0 = [(g, [], [])]"
    by auto
  let ?r = "level_ast (alts \<tau>0) (cur \<tau>0)"
  let ?G = "case g of None \<Rightarrow> NGroup ?r | Some i \<Rightarrow> Group i ?r"
  let ?G' = "case g of None \<Rightarrow> NGroup ?r | Some i \<Rightarrow> Group (i + ngroups \<sigma>) ?r"
  from sf m0 s0 have tf: "\<tau>f = \<tau>0\<lparr>stack := [], alts := [], cur := [?G]\<rparr>"
    by (auto simp add: step_def step_normal_def close_group_def)
  with ff m0 have "ast = Seq ?G Epsilon" and n: "n = ngroups \<tau>0"
    by (simp_all add: finish_def level_ast_def seq_of_def)
  moreover have "step (lift \<sigma> \<tau>0) (CHR '')'') = Inr (add_atoms [?G'] n \<sigma>)"
    using m0 s0 md n
    by (cases \<sigma>; cases g)
       (simp_all add: step_def step_normal_def close_group_def lift_def add_atoms_def)
  then have "run (Inr (lift \<sigma> \<tau>e)) (cr @ '')'') = Inr (add_atoms [?G'] n \<sigma>)"
    using l0 by (simp add: run_snoc)
  ultimately show ?thesis by blast
qed

lemma run_custom:
  assumes parse: "regex_parse (CHR ''('' # c @ '')'') = Inr (ast, n)"
    and np: "CHR '')'' \<notin> set c" and ne: "c \<noteq> []" and md: "mode \<sigma> = Normal"
  shows "\<exists>G. ast = Seq G Epsilon \<and> ((\<exists>r. G = Group 1 r) \<or> (\<exists>r. G = NGroup r))
           \<and> run (Inr \<sigma>) (CHR ''('' # c @ '')'') = Inr (add_atoms [regroup (ngroups \<sigma>) G] n \<sigma>)"
proof -
  from ne obtain x c' where c: "c = x # c'" by (cases c) auto
  show ?thesis
  proof (cases "x = CHR ''?''")
    case False
    let ?\<tau>e = "open_group (Some 1) (initial_pstate\<lparr>mode := AfterParen, ngroups := 1\<rparr>)"
    have e: "stack ?\<tau>e = [(Some 1, [], [])]" by (simp add: open_group_def initial_pstate_def)
    have "run (Inr initial_pstate) (CHR ''('' # c @ '')'') = run (Inr ?\<tau>e) (c @ '')'')"
      using False c
      by (simp add: step_def step_normal_def initial_pstate_def open_group_def)
    with parse have fin: "(case run (Inr ?\<tau>e) (c @ '')'') of Inl e \<Rightarrow> Inl e | Inr \<tau> \<Rightarrow> finish \<tau>) = Inr (ast, n)"
      by (simp add: regex_parse_def)
    have "run (Inr \<sigma>) (CHR ''('' # c @ '')'') = run (Inr (lift \<sigma> ?\<tau>e)) (c @ '')'')"
      using False c md
      by (cases \<sigma>)
         (simp add: step_def step_normal_def initial_pstate_def open_group_def lift_def)
    with run_group_body [OF e fin np md] show ?thesis by auto
  next
    case True
    let ?\<tau>e = "open_group None (initial_pstate\<lparr>mode := AfterParenQ\<rparr>)"
    have e: "stack ?\<tau>e = [(None, [], [])]" by (simp add: open_group_def initial_pstate_def)
    have q: "run (Inr initial_pstate) (CHR ''('' # c @ '')'')
        = run (step (initial_pstate\<lparr>mode := AfterParenQ\<rparr>) (hd (c' @ '')''))) (tl (c' @ '')''))"
      using True c
      by (cases c') (simp_all add: step_def step_normal_def initial_pstate_def)
    have col: "hd (c' @ '')'') = CHR '':''"
    proof (rule ccontr)
      assume "hd (c' @ '')'') \<noteq> CHR '':''"
      then have "step (initial_pstate\<lparr>mode := AfterParenQ\<rparr>) (hd (c' @ '')'')) = Inl error_unsupported
          \<or> step (initial_pstate\<lparr>mode := AfterParenQ\<rparr>) (hd (c' @ '')'')) = Inl error_paren"
        by (simp add: step_def)
      with q parse show False by (auto simp add: regex_parse_def run_Inl)
    qed
    with np c obtain c'' where c': "c' = CHR '':'' # c''" by (cases c') auto
    have "run (Inr initial_pstate) (CHR ''('' # c @ '')'') = run (Inr ?\<tau>e) (c'' @ '')'')"
      using True c c' by (simp add: step_def step_normal_def initial_pstate_def)
    with parse have fin: "(case run (Inr ?\<tau>e) (c'' @ '')'') of Inl e \<Rightarrow> Inl e | Inr \<tau> \<Rightarrow> finish \<tau>) = Inr (ast, n)"
      by (simp add: regex_parse_def)
    from np c c' have np': "CHR '')'' \<notin> set c''" by simp
    have "run (Inr \<sigma>) (CHR ''('' # c @ '')'') = run (Inr (lift \<sigma> ?\<tau>e)) (c'' @ '')'')"
      using True c c' md
      by (cases \<sigma>)
         (simp add: step_def step_normal_def initial_pstate_def open_group_def lift_def)
    with run_group_body [OF e fin np' md] show ?thesis by auto
  qed
qed


subsection \<open>What the parser makes of the compiler's output\<close>

text \<open>
  \<open>emitted d e n \<sigma> atoms\<close>: reading the text \<open>e\<close> from the state \<open>\<sigma>\<close>, the parser adds the
  terms \<open>atoms\<close> and numbers their \<open>n\<close> capturing groups, in order, after the groups of
  \<open>\<sigma>\<close>; a text that ends with a separator adds that character last; and when \<open>d\<close>
  holds, no term holds an end-of-input assertion (\<open>no_eol\<close>).  \<open>emits d e n\<close>: this is so
  from every state in which the parser is between two terms.
\<close>

fun no_eol :: "regex \<Rightarrow> bool" where
  "no_eol Eol = False"
| "no_eol (Seq a b) = (no_eol a \<and> no_eol b)"
| "no_eol (Alt a b) = (no_eol a \<and> no_eol b)"
| "no_eol (Group k r) = no_eol r"
| "no_eol (NGroup r) = no_eol r"
| "no_eol (Rep mn mx g r) = no_eol r"
| "no_eol r = True"

definition groups_in :: "regex list \<Rightarrow> nat list" where
  "groups_in atoms = concat (map groups_of atoms)"

definition emitted :: "bool \<Rightarrow> string \<Rightarrow> nat \<Rightarrow> pstate \<Rightarrow> regex list \<Rightarrow> bool" where
  "emitted d e n \<sigma> atoms \<longleftrightarrow>
     run (Inr \<sigma>) e = Inr (add_atoms atoms n \<sigma>)
     \<and> groups_in (rev atoms) = [Suc (ngroups \<sigma>)..<Suc (ngroups \<sigma> + n)]
     \<and> (d \<longrightarrow> list_all no_eol atoms)
     \<and> (e = [] \<longrightarrow> atoms = [])
     \<and> (e \<noteq> [] \<and> (last e = CHR ''/'' \<or> last e = bs) \<longrightarrow> atoms \<noteq> [] \<and> hd atoms = Chr (last e))"

definition emits :: "bool \<Rightarrow> string \<Rightarrow> nat \<Rightarrow> bool" where
  "emits d e n \<longleftrightarrow> (\<forall>\<sigma>. mode \<sigma> = Normal \<longrightarrow> (\<exists>atoms. emitted d e n \<sigma> atoms))"

lemma emitsI: "(\<And>\<sigma>. mode \<sigma> = Normal \<Longrightarrow> emitted d e n \<sigma> (f \<sigma>)) \<Longrightarrow> emits d e n"
  unfolding emits_def by blast

lemma emitsD: "emits d e n \<Longrightarrow> mode \<sigma> = Normal \<Longrightarrow> \<exists>atoms. emitted d e n \<sigma> atoms"
  unfolding emits_def by blast

lemma run_append: "run x (a @ b) = run (run x a) b"
proof (induction a arbitrary: x)
  case Nil
  show ?case by (cases x) simp_all
next
  case (Cons c a)
  show ?case by (cases x) (simp_all add: Cons)
qed

lemma add_atoms_simps:
  "add_atoms [] 0 \<sigma> = \<sigma>"
  "add_atoms b m (add_atoms a n \<sigma>) = add_atoms (b @ a) (n + m) \<sigma>"
  "mode (add_atoms a n \<sigma>) = mode \<sigma>"
  "alts (add_atoms a n \<sigma>) = alts \<sigma>"
  "stack (add_atoms a n \<sigma>) = stack \<sigma>"
  "cur (add_atoms a n \<sigma>) = a @ cur \<sigma>"
  "ngroups (add_atoms a n \<sigma>) = ngroups \<sigma> + n"
  by (simp_all add: add_atoms_def add.assoc)

lemma groups_in_simps:
  "groups_in [] = []" "groups_in (a # as) = groups_of a @ groups_in as"
  "groups_in (xs @ ys) = groups_in xs @ groups_in ys"
  by (simp_all add: groups_in_def)

lemma groups_of_seq_of: "groups_of (seq_of as) = groups_in as"
  by (induction as) (simp_all add: seq_of_def groups_in_def)

lemma emits_Nil: "emits d [] 0"
  by (rule emitsI [where f = "\<lambda>\<sigma>. []"]) (simp add: emitted_def add_atoms_simps groups_in_simps)

lemma emitted_append:
  assumes a: "emitted d a n \<sigma> as" and b: "emitted d b m (add_atoms as n \<sigma>) bs'"
  shows "emitted d (a @ b) (n + m) \<sigma> (bs' @ as)"
proof -
  from a have ra: "run (Inr \<sigma>) a = Inr (add_atoms as n \<sigma>)"
    and ga: "groups_in (rev as) = [Suc (ngroups \<sigma>)..<Suc (ngroups \<sigma> + n)]"
    and na: "d \<longrightarrow> list_all no_eol as"
    and ea: "a = [] \<longrightarrow> as = []"
    and la: "a \<noteq> [] \<and> (last a = CHR ''/'' \<or> last a = bs) \<longrightarrow> as \<noteq> [] \<and> hd as = Chr (last a)"
    by (simp_all add: emitted_def)
  from b have rb: "run (Inr (add_atoms as n \<sigma>)) b = Inr (add_atoms bs' m (add_atoms as n \<sigma>))"
    and gb: "groups_in (rev bs') = [Suc (ngroups \<sigma> + n)..<Suc (ngroups \<sigma> + n + m)]"
    and nb: "d \<longrightarrow> list_all no_eol bs'"
    and eb: "b = [] \<longrightarrow> bs' = []"
    and lb: "b \<noteq> [] \<and> (last b = CHR ''/'' \<or> last b = bs) \<longrightarrow> bs' \<noteq> [] \<and> hd bs' = Chr (last b)"
    by (simp_all add: emitted_def add_atoms_simps)
  have "run (Inr \<sigma>) (a @ b) = Inr (add_atoms (bs' @ as) (n + m) \<sigma>)"
    by (simp add: run_append ra rb add_atoms_simps)
  moreover have "[Suc (ngroups \<sigma>)..<Suc (ngroups \<sigma> + n)] @ [Suc (ngroups \<sigma> + n)..<Suc (ngroups \<sigma> + n + m)]
      = [Suc (ngroups \<sigma>)..<Suc (ngroups \<sigma> + (n + m))]"
    using upt_add_eq_append [of "Suc (ngroups \<sigma>)" "Suc (ngroups \<sigma> + n)" m] by (simp add: add.assoc)
  then have "groups_in (rev (bs' @ as)) = [Suc (ngroups \<sigma>)..<Suc (ngroups \<sigma> + (n + m))]"
    using ga gb by (simp add: groups_in_simps)
  moreover have "d \<longrightarrow> list_all no_eol (bs' @ as)" using na nb by simp
  moreover have "a @ b = [] \<longrightarrow> bs' @ as = []" using ea eb by simp
  moreover have "a @ b \<noteq> [] \<and> (last (a @ b) = CHR ''/'' \<or> last (a @ b) = bs)
      \<longrightarrow> bs' @ as \<noteq> [] \<and> hd (bs' @ as) = Chr (last (a @ b))"
    using la lb eb by (cases "b = []") auto
  ultimately show ?thesis unfolding emitted_def by blast
qed

lemma emits_append:
  assumes "emits d a n" and "emits d b m"
  shows "emits d (a @ b) (n + m)"
  unfolding emits_def
proof (intro allI impI)
  fix \<sigma> :: pstate
  assume md: "mode \<sigma> = Normal"
  from emitsD [OF assms(1) md] obtain as where a: "emitted d a n \<sigma> as" by blast
  have "mode (add_atoms as n \<sigma>) = Normal" using md by (simp add: add_atoms_simps)
  from emitsD [OF assms(2) this] obtain bs' where "emitted d b m (add_atoms as n \<sigma>) bs'" by blast
  from emitted_append [OF a this] show "\<exists>atoms. emitted d (a @ b) (n + m) \<sigma> atoms" by blast
qed

text \<open>The characters the tokenizer escapes.\<close>

definition special_list :: string where
  "special_list = ''.^$*+?()|[]{}'' @ [bs]"

definition is_special :: "char \<Rightarrow> bool" where
  "is_special c = (c \<in> set special_list)"

lemma rx_special_items_map: "rx_special_items = map CChar special_list"
  by (simp add: rx_special_items_def special_list_def bs_def)

lemma cls_member_special: "cls_member False False rx_special_items c = is_special c"
  by (auto simp add: cls_member_def rx_special_items_map list_ex_iff char_eq_def is_special_def)

lemma special_escape_plain:
  "list_all (\<lambda>c. class_escape c = None \<and> control_escape c = None \<and> c \<noteq> CHR ''b''
       \<and> c \<noteq> CHR ''B'' \<and> c \<noteq> CHR ''c'' \<and> c \<noteq> CHR ''x'' \<and> c \<noteq> CHR ''u'' \<and> \<not> isdigit c)
     special_list"
  by code_simp

lemma step_escape_special:
  "is_special c \<Longrightarrow> step_escape \<sigma> c = Inr (\<sigma>\<lparr>cur := Chr c # cur \<sigma>, mode := Normal\<rparr>)"
  using special_escape_plain
  by (simp add: list_all_iff is_special_def step_escape_def push_def)

lemma step_normal_ordinary:
  "\<not> is_special c \<Longrightarrow> step_normal \<sigma> c = Inr (\<sigma>\<lparr>cur := Chr c # cur \<sigma>, mode := Normal\<rparr>)"
  by (simp add: is_special_def special_list_def step_normal_def push_def bs_def)

lemma emits_ordinary: "\<not> is_special c \<Longrightarrow> emits d [c] 0"
  by (rule emitsI [where f = "\<lambda>\<sigma>. [Chr c]"])
     (simp add: emitted_def step_def step_normal_ordinary add_atoms_def groups_in_simps)

lemma is_special_bs: "is_special bs"
  by (simp add: is_special_def special_list_def)

lemma emits_escaped: "is_special c \<Longrightarrow> emits d [bs, c] 0"
  by (rule emitsI [where f = "\<lambda>\<sigma>. [Chr c]"])
     (simp add: emitted_def step_def step_normal_def step_escape_special add_atoms_def bs_def
        groups_in_simps)

lemma emits_chars: "\<forall>c \<in> set t. \<not> is_special c \<Longrightarrow> emits d t 0"
proof (induction t)
  case Nil
  show ?case by (rule emits_Nil)
next
  case (Cons c t)
  then have "emits d [c] 0" "emits d t 0" by (simp_all add: emits_ordinary)
  from emits_append [OF this] show ?case by simp
qed

lemmas step_simps = step_def step_normal_def step_bracket_def bracket_char_def step_escape_def
  class_escape_def control_escape_def push_def quantify_def question_def open_group_def
  close_group_def level_ast_def seq_of_def isdigit_def

lemma emits_required:
  assumes "sep = CHR ''/'' \<or> sep = bs"
  shows "emits d (''([^'' @ [bs] @ [sep] @ '']+?)'') 1"
proof (rule emitsI [where f = "\<lambda>\<sigma>. [Group (Suc (ngroups \<sigma>))
               (Seq (Rep 1 None False (Cls True [CChar sep])) Epsilon)]"])
  fix \<sigma> :: pstate
  assume "mode \<sigma> = Normal"
  then have "run (Inr \<sigma>) (''([^'' @ [bs] @ [sep] @ '']+?)'')
      = Inr (add_atoms [Group (Suc (ngroups \<sigma>))
               (Seq (Rep 1 None False (Cls True [CChar sep])) Epsilon)] 1 \<sigma>)"
    using assms
    by (cases \<sigma>; cases "sep = bs") (simp_all add: step_simps add_atoms_def bs_def)
  then show "emitted d (''([^'' @ [bs] @ [sep] @ '']+?)'') 1 \<sigma> [Group (Suc (ngroups \<sigma>))
               (Seq (Rep 1 None False (Cls True [CChar sep])) Epsilon)]"
    unfolding emitted_def by (simp add: bs_def groups_in_simps)
qed

lemma emits_wildcard: "emits d (''('' @ [bs] @ ''S+?)'') 1"
proof (rule emitsI [where f = "\<lambda>\<sigma>. [Group (Suc (ngroups \<sigma>))
               (Seq (Rep 1 None False (Cls False [CSpace False])) Epsilon)]"])
  fix \<sigma> :: pstate
  assume "mode \<sigma> = Normal"
  then have "run (Inr \<sigma>) (''('' @ [bs] @ ''S+?)'')
      = Inr (add_atoms [Group (Suc (ngroups \<sigma>))
               (Seq (Rep 1 None False (Cls False [CSpace False])) Epsilon)] 1 \<sigma>)"
    by (cases \<sigma>) (simp add: step_simps add_atoms_def bs_def)
  then show "emitted d (''('' @ [bs] @ ''S+?)'') 1 \<sigma> [Group (Suc (ngroups \<sigma>))
               (Seq (Rep 1 None False (Cls False [CSpace False])) Epsilon)]"
    unfolding emitted_def by (simp add: bs_def groups_in_simps)
qed

lemma no_eol_seq_of: "list_all no_eol as \<Longrightarrow> no_eol (seq_of as)"
  by (induction as) (simp_all add: seq_of_def)

text \<open>An optional group becomes one quantified non-capturing group.\<close>

definition emits_optional_group :: "bool \<Rightarrow> string \<Rightarrow> nat \<Rightarrow> bool" where
  "emits_optional_group d e n \<longleftrightarrow>
     (\<forall>\<sigma>. mode \<sigma> = Normal \<longrightarrow> (\<exists>r. emitted d e n \<sigma> [Rep 0 (Some 1) True (NGroup r)]))"

lemma emits_optional_groupI:
  assumes "emits d inner n"
  shows "emits_optional_group d (''(?:'' @ inner @ '')?'') n"
  unfolding emits_optional_group_def
proof (intro allI impI)
  fix \<sigma> :: pstate
  assume md: "mode \<sigma> = Normal"
  let ?\<sigma>1 = "open_group None (\<sigma>\<lparr>mode := AfterParenQ\<rparr>)"
  have r1: "run (Inr \<sigma>) (''(?:'' @ inner @ '')?'') = run (run (Inr ?\<sigma>1) inner) '')?''"
    using md by (simp add: run_append step_def step_normal_def)
  have "mode ?\<sigma>1 = Normal" by (simp add: open_group_def)
  from emitsD [OF assms this] obtain atoms where
    rs: "run (Inr ?\<sigma>1) inner = Inr (add_atoms atoms n ?\<sigma>1)"
    and gs: "groups_in (rev atoms) = [Suc (ngroups \<sigma>)..<Suc (ngroups \<sigma> + n)]"
    and ne: "d \<longrightarrow> list_all no_eol atoms"
    by (auto simp add: emitted_def open_group_def)
  let ?r = "level_ast [] atoms"
  let ?g = "Rep 0 (Some 1) True (NGroup ?r)"
  have "run (Inr (add_atoms atoms n ?\<sigma>1)) '')?'' = Inr (add_atoms [?g] n \<sigma>)"
    using md by (cases \<sigma>) (simp add: step_simps add_atoms_def)
  with r1 rs have "run (Inr \<sigma>) (''(?:'' @ inner @ '')?'') = Inr (add_atoms [?g] n \<sigma>)" by simp
  moreover have "d \<longrightarrow> list_all no_eol [?g]"
    using ne by (simp add: level_ast_def no_eol_seq_of)
  moreover have "groups_in (rev [?g]) = [Suc (ngroups \<sigma>)..<Suc (ngroups \<sigma> + n)]"
    using gs by (simp add: groups_in_simps level_ast_def groups_of_seq_of)
  ultimately have "emitted d (''(?:'' @ inner @ '')?'') n \<sigma> [?g]"
    unfolding emitted_def by (simp add: bs_def)
  then show "\<exists>r. emitted d (''(?:'' @ inner @ '')?'') n \<sigma> [Rep 0 (Some 1) True (NGroup r)]"
    by blast
qed

lemma emits_optional_groupD: "emits_optional_group d e n \<Longrightarrow> emits d e n"
  unfolding emits_optional_group_def emits_def by blast

lemma emits_optional: "emits d inner n \<Longrightarrow> emits d (''(?:'' @ inner @ '')?'') n"
  by (rule emits_optional_groupD [OF emits_optional_groupI])

text \<open>
  A custom sub-pattern that is, compiled on its own, one group with no group inside it:
  \<open>custom_group c d s\<close> also asks for a capturing group when \<open>c\<close> holds, and for a group
  without an end-of-input assertion when \<open>d\<close> holds.
\<close>

definition custom_group :: "bool \<Rightarrow> bool \<Rightarrow> string \<Rightarrow> bool" where
  "custom_group c d s =
     (case regex_parse s of
        Inl e \<Rightarrow> False
      | Inr (ast, n) \<Rightarrow>
          (case ast of
             Seq (Group i r) Epsilon \<Rightarrow> n = 1 \<and> groups_of r = [] \<and> (d \<longrightarrow> no_eol r)
           | Seq (NGroup r) Epsilon \<Rightarrow> \<not> c \<and> n = 0 \<and> groups_of r = [] \<and> (d \<longrightarrow> no_eol r)
           | _ \<Rightarrow> False))"

lemma emits_custom:
  assumes cg: "custom_group c d (CHR ''('' # t @ '')'')" and np: "CHR '')'' \<notin> set t" and ne: "t \<noteq> []"
  shows "\<exists>g. emits d (CHR ''('' # t @ '')'') g \<and> (c \<longrightarrow> g = 1)"
proof -
  let ?s = "CHR ''('' # t @ '')''"
  from cg obtain ast n where parse: "regex_parse ?s = Inr (ast, n)"
    by (cases "regex_parse ?s") (auto simp add: custom_group_def)
  from run_custom [OF parse np ne, of initial_pstate] obtain G where
    ast: "ast = Seq G Epsilon" and G: "(\<exists>r. G = Group 1 r) \<or> (\<exists>r. G = NGroup r)"
    by (auto simp add: initial_pstate_def)
  have run: "run (Inr \<sigma>) ?s = Inr (add_atoms [regroup (ngroups \<sigma>) G] n \<sigma>)" if "mode \<sigma> = Normal" for \<sigma>
    using run_custom [OF parse np ne that] ast by auto
  from G show ?thesis
  proof
    assume "\<exists>r. G = Group 1 r"
    then obtain r where r: "G = Group 1 r" by blast
    with cg parse ast have n: "n = 1" and gr: "groups_of r = []" and nr: "d \<longrightarrow> no_eol r"
      by (simp_all add: custom_group_def)
    have "emits d ?s 1"
    proof (rule emitsI [where f = "\<lambda>\<sigma>. [regroup (ngroups \<sigma>) G]"])
      fix \<sigma> :: pstate
      assume "mode \<sigma> = Normal"
      from run [OF this] show "emitted d ?s 1 \<sigma> [regroup (ngroups \<sigma>) G]"
        unfolding emitted_def using r n gr nr by (simp add: groups_in_simps bs_def)
    qed
    then show ?thesis by blast
  next
    assume "\<exists>r. G = NGroup r"
    then obtain r where r: "G = NGroup r" by blast
    with cg parse ast have n: "n = 0" and gr: "groups_of r = []" and nr: "d \<longrightarrow> no_eol r"
      and c: "\<not> c"
      by (simp_all add: custom_group_def)
    have "emits d ?s 0"
    proof (rule emitsI [where f = "\<lambda>\<sigma>. [regroup (ngroups \<sigma>) G]"])
      fix \<sigma> :: pstate
      assume "mode \<sigma> = Normal"
      from run [OF this] show "emitted d ?s 0 \<sigma> [regroup (ngroups \<sigma>) G]"
        unfolding emitted_def using r n gr nr by (simp add: groups_in_simps bs_def)
    qed
    with c show ?thesis by blast
  qed
qed

subsection \<open>More about the matcher and the tokenizer's pattern\<close>

lemma reset_caps_untouched:
  "\<forall>k \<in> set ks. k - 1 \<noteq> i \<Longrightarrow> reset_caps ks caps ! i = caps ! i"
  unfolding reset_caps_def
  by (induction ks arbitrary: caps) simp_all

lemma rmatch_untouched:
  "st' \<in> set (rmatch ic s r st) \<Longrightarrow> \<forall>k \<in> set (groups_of r). k - 1 \<noteq> i \<Longrightarrow>
   snd st' ! i = snd st ! i"
proof (induction ic s r st arbitrary: st' rule: rmatch.induct)
  case (1 ic s st)
  then show ?case by simp
next
  case (2 ic s c st)
  then show ?case by (auto simp add: one_char_iff)
next
  case (3 ic s st)
  then show ?case by (auto simp add: one_char_iff)
next
  case (4 ic s neg items st)
  then show ?case by (auto simp add: one_char_iff)
next
  case (5 ic s st)
  then show ?case by (auto split: if_splits)
next
  case (6 ic s st)
  then show ?case by (auto split: if_splits)
next
  case (7 ic s a b st)
  from "7.prems"(1) obtain st1 where st1: "st1 \<in> set (rmatch ic s a st)"
    and st': "st' \<in> set (rmatch ic s b st1)"
    by auto
  from "7.prems"(2) have ga: "\<forall>k \<in> set (groups_of a). k - 1 \<noteq> i"
    and gb: "\<forall>k \<in> set (groups_of b). k - 1 \<noteq> i" by simp_all
  from "7.IH"(1) [OF st1 ga] "7.IH"(2) [OF st1 st' gb] show ?case by simp
next
  case (8 ic s a b st)
  from "8.prems"(1) have "st' \<in> set (rmatch ic s a st) \<or> st' \<in> set (rmatch ic s b st)"
    by simp
  moreover from "8.prems"(2) have "\<forall>k \<in> set (groups_of a). k - 1 \<noteq> i"
    and "\<forall>k \<in> set (groups_of b). k - 1 \<noteq> i" by simp_all
  ultimately show ?case using "8.IH" by blast
next
  case (9 ic s k r st)
  from "9.prems"(1) obtain st1 where st1: "st1 \<in> set (rmatch ic s r st)"
    and st': "st' = (fst st1, (snd st1)[k - 1 := Some (take (length (fst st) - length (fst st1)) (fst st))])"
    by auto
  from "9.prems"(2) have "k - 1 \<noteq> i" and g: "\<forall>k \<in> set (groups_of r). k - 1 \<noteq> i" by simp_all
  from "9.IH" [OF st1 g] \<open>k - 1 \<noteq> i\<close> st' show ?case by simp
next
  case (10 ic s r st)
  then show ?case by simp
next
  case (11 ic s mn mx g r st)
  from "11.prems"(2) have gr: "\<forall>k \<in> set (groups_of r). k - 1 \<noteq> i" by simp
  show ?case
  proof (cases "mx = Some 0")
    case True
    with "11.prems"(1) show ?thesis by (subst (asm) rmatch.simps(11)) simp
  next
    case False
    let ?st0 = "(fst st, reset_caps (groups_of r) (snd st))"
    from "11.prems"(1) False have
      "st' = st \<or> (\<exists>st1 \<in> set (rmatch ic s r ?st0).
          \<not> (mn = 0 \<and> length (fst st) \<le> length (fst st1)) \<and>
          st' \<in> set (rmatch ic s (Rep (mn - 1) (map_option (\<lambda>k. k - 1) mx) g r) st1))"
      by (subst (asm) rmatch.simps(11)) (auto simp add: Let_def split: if_splits)
    then show ?thesis
    proof
      assume "st' = st"
      then show ?thesis by simp
    next
      assume "\<exists>st1 \<in> set (rmatch ic s r ?st0).
          \<not> (mn = 0 \<and> length (fst st) \<le> length (fst st1)) \<and>
          st' \<in> set (rmatch ic s (Rep (mn - 1) (map_option (\<lambda>k. k - 1) mx) g r) st1)"
      then obtain st1 where st1: "st1 \<in> set (rmatch ic s r ?st0)"
        and prog: "\<not> (mn = 0 \<and> length (fst st) \<le> length (fst st1))"
        and st': "st' \<in> set (rmatch ic s (Rep (mn - 1) (map_option (\<lambda>k. k - 1) mx) g r) st1)"
        by blast
      have g': "\<forall>k \<in> set (groups_of (Rep (mn - 1) (map_option (\<lambda>k. k - 1) mx) g r)). k - 1 \<noteq> i"
        using gr by simp
      from "11.IH"(1) [OF False st1 gr] have "snd st1 ! i = snd ?st0 ! i" .
      moreover from "11.IH"(2) [OF False st1 prog st' g'] have "snd st' ! i = snd st1 ! i" .
      ultimately show ?thesis using reset_caps_untouched [OF gr] by simp
    qed
  qed
qed

lemma rmatch_char_first_shorter:
  assumes "st' \<in> set (rmatch ic s (Seq (Chr c) r) st)"
  shows "length (fst st') < length (fst st)"
proof -
  from assms obtain st1 where st1: "st1 \<in> set (one_char (char_eq ic c) st)"
    and st': "st' \<in> set (rmatch ic s r st1)"
    by auto
  from st1 have "length (fst st1) < length (fst st)" by (auto simp add: one_char_iff)
  moreover from rmatch_cap_ok [OF st'] have "length (fst st') \<le> length (fst st1)"
    by (simp add: cap_ok_def)
  ultimately show ?thesis by simp
qed

lemma rmatch_rx_special':
  "rmatch False s rx_special (rest, caps) =
     (case rest of [] \<Rightarrow> []
      | c # cs \<Rightarrow> if is_special c then [(cs, caps[4 := Some [c]])] else [])"
  by (cases rest) (simp_all add: rmatch_rx_special cls_member_special)

lemma rx_match_cases:
  assumes "st \<in> set (match_here rx s rest)"
  obtains
      "st \<in> set (rmatch False s rx_opt (rest, replicate 5 None))"
    | "st \<in> set (rmatch False s rx_req (rest, replicate 5 None))"
    | "st \<in> set (rmatch False s rx_wild (rest, replicate 5 None))"
    | "st \<in> set (rmatch False s rx_special (rest, replicate 5 None))"
  using assms by (auto simp add: match_here_rx)

lemma rx_match_nonempty:
  assumes "st \<in> set (match_here rx s rest)"
  shows "length (fst st) < length rest"
  using assms
proof (cases rule: rx_match_cases)
  case 1
  from rmatch_char_first_shorter [OF 1 [unfolded rx_opt_def]] show ?thesis by simp
next
  case 2
  from rmatch_char_first_shorter [OF 2 [unfolded rx_req_def]] show ?thesis by simp
next
  case 3
  from rmatch_char_first_shorter [OF 3 [unfolded rx_wild_def]] show ?thesis by simp
next
  case 4
  then show ?thesis by (auto simp add: rmatch_rx_special' split: list.splits if_splits)
qed

lemma rx_no_match_not_special:
  assumes "match_here rx s (c # cs) = []"
  shows "\<not> is_special c"
proof -
  from assms have "rmatch False s rx_special (c # cs, replicate 5 None) = []"
    by (simp add: match_here_rx)
  then show ?thesis by (simp add: rmatch_rx_special' split: if_splits)
qed

lemma rx_special_capture:
  assumes "st \<in> set (match_here rx s rest)" and "snd st ! 4 = Some t"
  shows "\<exists>c. t = [c] \<and> is_special c"
  using assms(1)
proof (cases rule: rx_match_cases)
  case 1
  from rmatch_untouched [OF 1, of 4] assms(2) show ?thesis by (simp add: rx_opt_def)
next
  case 2
  from rmatch_untouched [OF 2, of 4] assms(2) show ?thesis by (simp add: rx_req_def)
next
  case 3
  from rmatch_untouched [OF 3, of 4] assms(2) show ?thesis by (simp add: rx_wild_def)
next
  case 4
  with assms(2) show ?thesis by (auto simp add: rmatch_rx_special' split: list.splits if_splits)
qed

lemma search_from_rx_None:
  "search_from rx s off rest = None \<Longrightarrow> \<forall>c \<in> set rest. \<not> is_special c"
proof (induction rest arbitrary: off)
  case Nil
  show ?case by simp
next
  case (Cons c cs)
  from Cons.prems have mh: "match_here rx s (c # cs) = []"
    and rec: "search_from rx s (Suc off) cs = None"
    by (auto split: list.splits)
  from rx_no_match_not_special [OF mh] Cons.IH [OF rec] show ?case by simp
qed

lemma search_from_rx_Some:
  "search_from rx s off rest = Some m \<Longrightarrow>
   \<exists>pre rest' st sts. rest = pre @ rest' \<and> (\<forall>c \<in> set pre. \<not> is_special c)
      \<and> match_here rx s rest' = st # sts \<and> m = found (off + length pre) rest' st"
proof (induction rest arbitrary: off)
  case Nil
  then have "[] = [] @ ([] :: string) \<and> (\<forall>c \<in> set ([] :: string). \<not> is_special c)
      \<and> (\<exists>st sts. match_here rx s [] = st # sts \<and> m = found (off + length ([] :: string)) [] st)"
    by (auto split: list.splits)
  then show ?case by blast
next
  case (Cons c cs)
  show ?case
  proof (cases "match_here rx s (c # cs)")
    case Nil
    with Cons.prems have "search_from rx s (Suc off) cs = Some m" by simp
    from Cons.IH [OF this] obtain pre rest' st sts where
      "cs = pre @ rest'" "\<forall>c \<in> set pre. \<not> is_special c" "match_here rx s rest' = st # sts"
      "m = found (Suc off + length pre) rest' st"
      by blast
    with rx_no_match_not_special [OF Nil]
    have "c # cs = (c # pre) @ rest' \<and> (\<forall>x \<in> set (c # pre). \<not> is_special x)
        \<and> match_here rx s rest' = st # sts \<and> m = found (off + length (c # pre)) rest' st"
      by simp
    then show ?thesis by blast
  next
    case (Cons st sts)
    with Cons.prems have "c # cs = [] @ (c # cs) \<and> (\<forall>x \<in> set ([] :: string). \<not> is_special x)
        \<and> match_here rx s (c # cs) = st # sts \<and> m = found (off + length ([] :: string)) (c # cs) st"
      by simp
    then show ?thesis by blast
  qed
qed

lemma rmatch_plus_class:
  "st' \<in> set (rmatch ic s (Rep mn None g (Cls neg items)) st) \<Longrightarrow>
   \<exists>pre. fst st = pre @ fst st' \<and> mn \<le> length pre
      \<and> (\<forall>x \<in> set pre. cls_member ic neg items x) \<and> snd st' = snd st"
proof (induction "length (fst st)" arbitrary: st mn rule: less_induct)
  case less
  let ?R = "Rep (mn - 1) None g (Cls neg items)"
  from less.prems have
    "(mn = 0 \<and> st' = st) \<or> (\<exists>st1 \<in> set (one_char (cls_member ic neg items) st).
        st' \<in> set (rmatch ic s ?R st1))"
    by (subst (asm) rmatch.simps(11))
       (auto simp add: Let_def reset_caps_def split: if_splits)
  then show ?case
  proof
    assume "mn = 0 \<and> st' = st"
    then show ?thesis by simp
  next
    assume "\<exists>st1 \<in> set (one_char (cls_member ic neg items) st). st' \<in> set (rmatch ic s ?R st1)"
    then obtain st1 x where x: "fst st = x # fst st1" "cls_member ic neg items x" "snd st1 = snd st"
      and st': "st' \<in> set (rmatch ic s ?R st1)"
      by (auto simp add: one_char_iff)
    from x(1) have "length (fst st1) < length (fst st)" by simp
    from less.hyps [OF this st'] obtain pre where
      "fst st1 = pre @ fst st'" "mn - 1 \<le> length pre"
      "\<forall>x \<in> set pre. cls_member ic neg items x" "snd st' = snd st1"
      by blast
    with x have "fst st = (x # pre) @ fst st' \<and> mn \<le> length (x # pre)
        \<and> (\<forall>y \<in> set (x # pre). cls_member ic neg items y) \<and> snd st' = snd st"
      by auto
    then show ?thesis by blast
  qed
qed

lemma rx_custom_capture:
  assumes "st \<in> set (match_here rx s rest)" and "snd st ! 2 = Some t"
  shows "\<exists>c. t = CHR ''('' # c @ '')'' \<and> c \<noteq> [] \<and> CHR '')'' \<notin> set c"
proof -
  let ?st0 = "(rest, replicate 5 (None :: string option))"
  let ?B = "Seq (Chr CHR ''('')
                   (Seq (Rep 1 None True (Cls True [CChar CHR '')'']))
                     (Seq (Chr CHR '')'') Epsilon))"
  from assms(1) consider
      "st \<in> set (rmatch False s rx_opt ?st0)" | "st \<in> set (rmatch False s rx_req ?st0)"
    | "st \<in> set (rmatch False s rx_wild ?st0)" | "st \<in> set (rmatch False s rx_special ?st0)"
    by (auto simp add: match_here_rx)
  then show ?thesis
  proof cases
    case 1
    from rmatch_untouched [OF 1, of 2] assms(2) show ?thesis by (simp add: rx_opt_def)
  next
    case 3
    from rmatch_untouched [OF 3, of 2] assms(2) show ?thesis by (simp add: rx_wild_def)
  next
    case 4
    from rmatch_untouched [OF 4, of 2] assms(2) show ?thesis by (simp add: rx_special_def)
  next
    case 2
    then obtain st1 st2 where
      st1: "st1 \<in> set (rmatch False s (Chr CHR '':'') ?st0)"
      and st2: "st2 \<in> set (rmatch False s
          (Group 2 (Seq (Rep 1 None True (Cls False [CWord True, CChar CHR ''%''])) Epsilon)) st1)"
      and st3: "st \<in> set (rmatch False s (Rep 0 (Some 1) True (Group 3 ?B)) st2)"
      unfolding rx_req_def by (simp del: rmatch.simps(2,9)) blast
    from rmatch_untouched [OF st1, of 2] rmatch_untouched [OF st2, of 2]
    have n2: "snd st2 ! 2 = None" by simp
    from rmatch_cap_ok [OF st1] rmatch_cap_ok [OF st2] have l2: "length (snd st2) = 5"
      by (simp add: cap_ok_def)
    let ?st2' = "(fst st2, reset_caps [3] (snd st2))"
    from st3 n2 assms(2) obtain st4 where
      st4: "st4 \<in> set (rmatch False s ?B ?st2')"
      and st: "st = (fst st4, (snd st4)[2 := Some (take (length (fst st2) - length (fst st4)) (fst st2))])"
      by (subst (asm) rmatch.simps(11))
         (auto simp add: Let_def rmatch.simps(11) [of _ _ 0 "Some 0"] split: if_splits)
    from st4 obtain a b where
      a: "a \<in> set (one_char (char_eq False (CHR ''('')) ?st2')"
      and b: "b \<in> set (rmatch False s (Rep 1 None True (Cls True [CChar CHR '')''])) a)"
      and e: "st4 \<in> set (one_char (char_eq False (CHR '')'')) b)"
      by auto
    from a have fa: "fst st2 = CHR ''('' # fst a" by (auto simp add: one_char_iff char_eq_def)
    from rmatch_plus_class [OF b] obtain c where
      fb: "fst a = c @ fst b" and c1: "1 \<le> length c"
      and cm: "\<forall>x \<in> set c. cls_member False True [CChar CHR '')''] x"
      by blast
    from e have fe: "fst b = CHR '')'' # fst st4" by (auto simp add: one_char_iff char_eq_def)
    from rmatch_cap_ok [OF st4] l2 have "length (snd st4) = 5"
      by (simp add: cap_ok_def length_reset_caps)
    with st assms(2) have "t = take (length (fst st2) - length (fst st4)) (fst st2)" by simp
    with fa fb fe have "t = CHR ''('' # c @ '')''" by simp
    moreover from c1 have "c \<noteq> []" by auto
    moreover from cm have "CHR '')'' \<notin> set c"
      by (auto simp add: cls_member_def char_eq_def)
    ultimately show ?thesis by blast
  qed
qed

subsection \<open>The compiler's loop, one token at a time\<close>

text \<open>
  \<open>customs_ok P path\<close>: every custom sub-pattern of a required parameter in \<open>path\<close>, also
  inside the optional groups of \<open>path\<close>, satisfies \<open>P\<close>.
\<close>

function customs_ok :: "(string \<Rightarrow> bool) \<Rightarrow> string \<Rightarrow> bool" where
  "customs_ok P path =
     list_all (\<lambda>m. (if sub_matched (sub m required_param_pattern_idx)
                     then P (str (sub m required_param_pattern_idx)) else True)
                 \<and> (if sub_matched (sub m optional_param_key_idx)
                     then customs_ok P (str (sub m optional_param_key_idx)) else True))
       (sregex_iterator path rx)"
  by pat_completeness auto
termination
proof (relation "measure (\<lambda>(P, path). length path)")
  show "wf (measure (\<lambda>(P, path). length path))" by simp
next
  fix P :: "string \<Rightarrow> bool" and path :: string and x
  assume "x \<in> set (sregex_iterator path rx)" and "sub_matched (sub x optional_param_key_idx)"
  then show "((P, str (sub x optional_param_key_idx)), (P, path)) \<in> measure (\<lambda>(P, path). length path)"
    by (simp add: sregex_iterator_rx_opt_shorter)
qed

declare customs_ok.simps [simp del]

text \<open>
  \<open>capturing_customs path\<close>: every custom sub-pattern in \<open>path\<close> is, compiled on its own,
  one capturing group.  \<open>customs_without_eol path\<close>: every custom sub-pattern in \<open>path\<close> is,
  compiled on its own, one group (capturing or not) that holds no end-of-input assertion.
\<close>

definition capturing_customs :: "string \<Rightarrow> bool" where
  "capturing_customs path = customs_ok (custom_group True False) path"


text \<open>
  \<open>mp_body path separator\<close> is the body of the loop of \<open>make_pattern\<close>: it takes one match
  of the tokenizer and the variables \<open>last_pos\<close>, \<open>pattern\<close> and \<open>keys\<close>.
\<close>

definition mp_body ::
  "string \<Rightarrow> char \<Rightarrow> match_results \<Rightarrow> nat \<times> string \<times> string list \<Rightarrow> nat \<times> string \<times> string list" where
  "mp_body path separator =
     (\<lambda>match (last_pos, pattern, keys).
            let pattern = (if last_pos < position match
                           then pattern @ substr path last_pos (position match - last_pos)
                           else pattern);
                (pattern, keys) =
                  (if sub_matched (sub match optional_param_key_idx) then
                     (let (subpattern, keys) =
                            make_pattern (str (sub match optional_param_key_idx)) keys separator
                      in (if subpattern \<noteq> [] then pattern @ ''(?:'' @ subpattern @ '')?''
                          else pattern, keys))
                   else if sub_matched (sub match required_param_key_idx) then
                     (let keys = keys @ [percent_decode (str (sub match required_param_key_idx))];
                          subpattern = str (sub match required_param_pattern_idx)
                      in (if subpattern = [] then pattern @ ''([^'' @ [bs] @ [separator] @ '']+?)''
                          else pattern @ subpattern, keys))
                   else if sub_matched (sub match wildcard_param_key_idx) then
                     (pattern @ ''('' @ [bs] @ ''S+?)'',
                      keys @ [percent_decode (str (sub match wildcard_param_key_idx))])
                   else if sub_matched (sub match special_chars_key_idx) then
                     (pattern @ [bs] @ str (sub match special_chars_key_idx), keys)
                   else (pattern, keys))
            in (position match + mlength match, pattern, keys))"

lemma make_pattern_unfold:
  "make_pattern path keys separator =
     (let (last_pos, pattern, keys) =
        fold (mp_body path separator) (sregex_iterator path rx) (0, [], keys)
      in (if last_pos < length path
          then pattern @ substr path last_pos (length path - last_pos)
          else pattern, keys))"
  unfolding mp_body_def by (rule make_pattern.simps)

text \<open>
  What the induction over the tokens carries: the compiler only appends to the pattern and
  to the keys, the appended text is read by the parser as a run of whole terms, and, when
  \<open>c\<close> holds, it opens one capturing group for each appended key.
\<close>

definition good_inner :: "bool \<Rightarrow> bool \<Rightarrow> char \<Rightarrow> string \<Rightarrow> bool" where
  "good_inner c d sep inner \<longleftrightarrow>
     (\<forall>ks. \<exists>t ks2 g. make_pattern inner ks sep = (t, ks @ ks2) \<and> emits d t g \<and> (c \<longrightarrow> g = length ks2))"

definition token_ok :: "bool \<Rightarrow> bool \<Rightarrow> char \<Rightarrow> match_results \<Rightarrow> bool" where
  "token_ok c d sep m \<longleftrightarrow>
     (sub_matched (sub m required_param_pattern_idx)
        \<longrightarrow> custom_group c d (str (sub m required_param_pattern_idx)))
     \<and> (sub_matched (sub m optional_param_key_idx)
        \<longrightarrow> good_inner c d sep (str (sub m optional_param_key_idx)))"

lemma emits_Nil_zero: "emits d [] k \<Longrightarrow> k = 0"
proof -
  assume "emits d [] k"
  from emitsD [OF this, of initial_pstate] obtain atoms where
    "run (Inr initial_pstate) [] = Inr (add_atoms atoms k initial_pstate)"
    by (auto simp add: initial_pstate_def emitted_def)
  then have "ngroups initial_pstate = ngroups (add_atoms atoms k initial_pstate)" by simp
  then show "k = 0" by (simp add: add_atoms_simps)
qed

lemma found_simps:
  "position (found off rest st) = off"
  "mlength (found off rest st) = length rest - length (fst st)"
  "length (snd st) = 5 \<Longrightarrow> sub (found off rest st) optional_param_key_idx = snd st ! 0"
  "length (snd st) = 5 \<Longrightarrow> sub (found off rest st) required_param_key_idx = snd st ! 1"
  "length (snd st) = 5 \<Longrightarrow> sub (found off rest st) required_param_pattern_idx = snd st ! 2"
  "length (snd st) = 5 \<Longrightarrow> sub (found off rest st) wildcard_param_key_idx = snd st ! 3"
  "length (snd st) = 5 \<Longrightarrow> sub (found off rest st) special_chars_key_idx = snd st ! 4"
  by (simp_all add: found_def mlength_def sub_def str_def optional_param_key_idx_def
      required_param_key_idx_def required_param_pattern_idx_def wildcard_param_key_idx_def
      special_chars_key_idx_def)

lemma match_here_rx_length:
  "st \<in> set (match_here rx s rest) \<Longrightarrow> length (snd st) = 5"
  using rmatch_cap_ok [of st False s "re_ast rx" "(rest, replicate 5 None)"]
  by (simp add: match_here_def rx_eq cap_ok_def)

lemma rx_iterator_Nil:
  "sregex_iterator_from rx s off rest = [] \<Longrightarrow> \<forall>c \<in> set rest. \<not> is_special c"
  by (subst (asm) sregex_iterator_from.simps)
     (auto dest: search_from_rx_None split: option.splits)

lemma rx_iterator_Cons:
  assumes it: "sregex_iterator_from rx s off (drop off s) = m # ms" and off: "off \<le> length s"
  shows "\<exists>pre rest' st sts. drop off s = pre @ rest' \<and> (\<forall>c \<in> set pre. \<not> is_special c)
      \<and> match_here rx s rest' = st # sts \<and> m = found (off + length pre) rest' st
      \<and> mlength m \<noteq> 0
      \<and> ms = sregex_iterator_from rx s (off + length pre + mlength m)
                (drop (off + length pre + mlength m) s)
      \<and> off + length pre + mlength m \<le> length s"
proof -
  from it have sf: "search_from rx s off (drop off s) = Some m"
    by (subst (asm) sregex_iterator_from.simps) (auto split: option.splits)
  from search_from_rx_Some [OF sf] obtain pre rest' st sts where
    r: "drop off s = pre @ rest'" and np: "\<forall>c \<in> set pre. \<not> is_special c"
    and mh: "match_here rx s rest' = st # sts" and m: "m = found (off + length pre) rest' st"
    by blast
  from mh have "st \<in> set (match_here rx s rest')" by simp
  from rx_match_nonempty [OF this] have nz: "mlength m \<noteq> 0"
    using m by (simp add: found_simps)
  have pm: "position m = off + length pre" using m by (simp add: found_simps)
  from search_from_bounds [OF sf] have b: "position m - off + mlength m \<le> length (drop off s)"
    by (rule conjunct2)
  with pm off have le: "off + length pre + mlength m \<le> length s" by simp
  have "drop (position m - off + mlength m) (drop off s) = drop (off + length pre + mlength m) s"
    using pm by (simp add: add.commute add.left_commute)
  with it sf nz pm have "ms = sregex_iterator_from rx s (off + length pre + mlength m)
                (drop (off + length pre + mlength m) s)"
    by (subst (asm) sregex_iterator_from.simps) simp
  with r np mh m nz le show ?thesis by blast
qed

lemma mp_body_step:
  assumes sep: "sep = CHR ''/'' \<or> sep = bs"
    and dr: "drop off path = pre @ rest'" and np: "\<forall>c \<in> set pre. \<not> is_special c"
    and mh: "match_here rx path rest' = st # sts" and m: "m = found (off + length pre) rest' st"
    and ok: "token_ok c d sep m"
  shows "\<exists>frag ks2 g. mp_body path sep m (off, pat, ks)
              = (off + length pre + mlength m, pat @ pre @ frag, ks @ ks2)
            \<and> emits d frag g \<and> (c \<longrightarrow> g = length ks2)
            \<and> (sub_matched (sub m optional_param_key_idx) \<and> frag \<noteq> []
                 \<longrightarrow> emits_optional_group d frag g)"
proof -
  from mh have st: "st \<in> set (match_here rx path rest')" by simp
  note len = match_here_rx_length [OF st]
  have pos: "position m = off + length pre" using m by (simp add: found_simps)
  have p1: "substr path off (length pre) = pre"
    using dr by (simp add: substr_def)
  show ?thesis
  proof (cases "sub_matched (sub m optional_param_key_idx)")
    case True
    let ?inner = "str (sub m optional_param_key_idx)"
    from ok True have "good_inner c d sep ?inner" by (simp add: token_ok_def)
    then obtain t ks2 g where r: "make_pattern ?inner ks sep = (t, ks @ ks2)"
      and e: "emits d t g" and cg: "c \<longrightarrow> g = length ks2"
      unfolding good_inner_def by blast
    let ?frag = "if t \<noteq> [] then ''(?:'' @ t @ '')?'' else []"
    have body: "mp_body path sep m (off, pat, ks)
        = (off + length pre + mlength m, pat @ pre @ ?frag, ks @ ks2)"
      using True p1 pos r by (simp add: mp_body_def Let_def)
    have "emits d ?frag g \<and> (?frag \<noteq> [] \<longrightarrow> emits_optional_group d ?frag g)"
    proof (cases "t = []")
      case True
      with e show ?thesis by simp
    next
      case False
      with emits_optional_groupI [OF e] emits_optional [OF e] show ?thesis by simp
    qed
    with body cg True show ?thesis by blast
  next
    case no_opt: False
    show ?thesis
    proof (cases "sub_matched (sub m required_param_key_idx)")
      case True
      let ?ks2 = "[percent_decode (str (sub m required_param_key_idx))]"
      show ?thesis
      proof (cases "sub_matched (sub m required_param_pattern_idx)")
        case False
        let ?frag = "''([^'' @ [bs] @ [sep] @ '']+?)''"
        from False have "str (sub m required_param_pattern_idx) = []"
          by (simp add: sub_matched_def str_def)
        then have body: "mp_body path sep m (off, pat, ks)
            = (off + length pre + mlength m, pat @ pre @ ?frag, ks @ ?ks2)"
          using True no_opt p1 pos by (simp add: mp_body_def Let_def)
        have "emits d ?frag 1" by (rule emits_required [OF sep])
        with body no_opt show ?thesis
          by (intro exI [of _ ?frag] exI [of _ ?ks2] exI [of _ 1]) simp
      next
        case custom: True
        then obtain t where t: "snd st ! 2 = Some t"
          using m len by (auto simp add: found_simps sub_matched_def)
        from rx_custom_capture [OF st t] obtain cc where
          cc: "t = CHR ''('' # cc @ '')''" "cc \<noteq> []" "CHR '')'' \<notin> set cc"
          by blast
        have s3: "str (sub m required_param_pattern_idx) = t"
          using m len t by (simp add: found_simps str_def)
        from ok custom s3 have "custom_group c d t" by (simp add: token_ok_def)
        from emits_custom [OF this [unfolded cc(1)] cc(3) cc(2)] obtain g where
          g: "emits d t g" "c \<longrightarrow> g = 1"
          unfolding cc(1) by blast
        have "t \<noteq> []" using cc(1) by simp
        then have body: "mp_body path sep m (off, pat, ks)
            = (off + length pre + mlength m, pat @ pre @ t, ks @ ?ks2)"
          using True no_opt p1 pos s3 by (simp add: mp_body_def Let_def)
        with g no_opt show ?thesis
          by (intro exI [of _ t] exI [of _ ?ks2] exI [of _ g]) simp
      qed
    next
      case no_req: False
      show ?thesis
      proof (cases "sub_matched (sub m wildcard_param_key_idx)")
        case True
        let ?ks2 = "[percent_decode (str (sub m wildcard_param_key_idx))]"
        let ?frag = "''('' @ [bs] @ ''S+?)''"
        have body: "mp_body path sep m (off, pat, ks)
            = (off + length pre + mlength m, pat @ pre @ ?frag, ks @ ?ks2)"
          using True no_opt no_req p1 pos by (simp add: mp_body_def Let_def)
        have "emits d ?frag 1" by (rule emits_wildcard)
        with body no_opt show ?thesis
          by (intro exI [of _ ?frag] exI [of _ ?ks2] exI [of _ 1]) simp
      next
        case no_wild: False
        show ?thesis
        proof (cases "sub_matched (sub m special_chars_key_idx)")
          case True
          then obtain t where t: "snd st ! 4 = Some t"
            using m len by (auto simp add: found_simps sub_matched_def)
          from rx_special_capture [OF st t] obtain x where x: "t = [x]" "is_special x" by blast
          have s5: "str (sub m special_chars_key_idx) = [x]"
            using m len t x by (simp add: found_simps str_def)
          have body: "mp_body path sep m (off, pat, ks)
              = (off + length pre + mlength m, pat @ pre @ [bs, x], ks @ [])"
            using True no_opt no_req no_wild p1 pos s5 by (simp add: mp_body_def Let_def)
          have "emits d [bs, x] 0" by (rule emits_escaped [OF x(2)])
          with body no_opt show ?thesis
            by (intro exI [of _ "[bs, x]"] exI [of _ "[]"] exI [of _ 0]) simp
        next
          case False
          have body: "mp_body path sep m (off, pat, ks)
              = (off + length pre + mlength m, pat @ pre @ [], ks @ [])"
            using False no_opt no_req no_wild p1 pos by (simp add: mp_body_def Let_def)
          with no_opt emits_Nil [of d] show ?thesis
            by (intro exI [of _ "[]"] exI [of _ "[]"] exI [of _ 0]) simp
        qed
      qed
    qed
  qed
qed

lemma fold_mp_body:
  assumes sep: "sep = CHR ''/'' \<or> sep = bs"
  shows "off \<le> length path \<Longrightarrow>
    \<forall>m \<in> set (sregex_iterator_from rx path off (drop off path)). token_ok c d sep m \<Longrightarrow>
    \<exists>lp t ks2 g. fold (mp_body path sep) (sregex_iterator_from rx path off (drop off path)) (off, pat, ks)
        = (lp, pat @ t, ks @ ks2)
      \<and> lp \<le> length path \<and> emits d (t @ drop lp path) g \<and> (c \<longrightarrow> g = length ks2)"
proof (induction "length path - off" arbitrary: off pat ks rule: less_induct)
  case less
  let ?it = "sregex_iterator_from rx path off (drop off path)"
  show ?case
  proof (cases ?it)
    case Nil
    from rx_iterator_Nil [OF Nil] have "emits d (drop off path) 0" by (rule emits_chars)
    with Nil less.prems(1) show ?thesis
      by (intro exI [of _ off] exI [of _ "[]"] exI [of _ 0]) simp
  next
    case (Cons m ms)
    from rx_iterator_Cons [OF Cons less.prems(1)] obtain pre rest' st sts where
      dr: "drop off path = pre @ rest'" and np: "\<forall>c \<in> set pre. \<not> is_special c"
      and mh: "match_here rx path rest' = st # sts" and m: "m = found (off + length pre) rest' st"
      and nz: "mlength m \<noteq> 0"
      and ms: "ms = sregex_iterator_from rx path (off + length pre + mlength m)
                (drop (off + length pre + mlength m) path)"
      and le: "off + length pre + mlength m \<le> length path"
      by blast
    let ?off' = "off + length pre + mlength m"
    from less.prems(2) Cons have okm: "token_ok c d sep m"
      and okms: "\<forall>m \<in> set (sregex_iterator_from rx path ?off' (drop ?off' path)). token_ok c d sep m"
      using ms by simp_all
    from mp_body_step [OF sep dr np mh m okm, of pat ks] obtain frag k1 g1 where
      body: "mp_body path sep m (off, pat, ks) = (?off', pat @ pre @ frag, ks @ k1)"
      and e1: "emits d frag g1" and c1: "c \<longrightarrow> g1 = length k1"
      by blast
    have "length path - ?off' < length path - off" using nz le by simp
    from less.hyps [OF this le okms, of "pat @ pre @ frag" "ks @ k1"] obtain lp t k2 g2 where
      f: "fold (mp_body path sep) (sregex_iterator_from rx path ?off' (drop ?off' path))
            (?off', pat @ pre @ frag, ks @ k1) = (lp, (pat @ pre @ frag) @ t, (ks @ k1) @ k2)"
      and lp: "lp \<le> length path" and e2: "emits d (t @ drop lp path) g2"
      and c2: "c \<longrightarrow> g2 = length k2"
      by blast
    from emits_append [OF emits_append [OF emits_chars [OF np, of d] e1] e2]
    have "emits d ((pre @ frag @ t) @ drop lp path) (g1 + g2)" by simp
    moreover have "fold (mp_body path sep) ?it (off, pat, ks)
        = (lp, pat @ (pre @ frag @ t), ks @ (k1 @ k2))"
      using Cons body f ms by simp
    moreover have "c \<longrightarrow> g1 + g2 = length (k1 @ k2)" using c1 c2 by simp
    ultimately show ?thesis using lp by blast
  qed
qed

lemma customs_ok_iff:
  "customs_ok P path \<longleftrightarrow>
     (\<forall>m \<in> set (sregex_iterator path rx).
        (sub_matched (sub m required_param_pattern_idx)
           \<longrightarrow> P (str (sub m required_param_pattern_idx)))
        \<and> (sub_matched (sub m optional_param_key_idx)
             \<longrightarrow> customs_ok P (str (sub m optional_param_key_idx))))"
  by (subst customs_ok.simps) (auto simp add: list_all_iff)

lemma substr_rest: "lp \<le> length path \<Longrightarrow>
   (if lp < length path then pat @ substr path lp (length path - lp) else pat) = pat @ drop lp path"
  by (simp add: substr_def)

lemma make_pattern_emits:
  assumes sep: "sep = CHR ''/'' \<or> sep = bs"
  shows "customs_ok (custom_group c d) path \<Longrightarrow> good_inner c d sep path"
proof (induction path rule: length_induct)
  case (1 path)
  have inner: "good_inner c d sep (str (sub m optional_param_key_idx))"
    if "m \<in> set (sregex_iterator path rx)" and "sub_matched (sub m optional_param_key_idx)" for m
  proof -
    from that "1.prems" have "customs_ok (custom_group c d) (str (sub m optional_param_key_idx))"
      by (subst (asm) customs_ok_iff) blast
    moreover from that have "length (str (sub m optional_param_key_idx)) < length path"
      by (rule sregex_iterator_rx_opt_shorter)
    ultimately show ?thesis using "1.IH" by simp
  qed
  have all: "\<forall>m \<in> set (sregex_iterator_from rx path 0 (drop 0 path)). token_ok c d sep m"
    using "1.prems" inner
    by (subst (asm) customs_ok_iff) (auto simp add: sregex_iterator_def token_ok_def)
  show ?case
    unfolding good_inner_def
  proof
    fix ks
    from fold_mp_body [OF sep _ all, of "[]" ks] obtain lp t ks2 g where
      f: "fold (mp_body path sep) (sregex_iterator path rx) (0, [], ks) = (lp, t, ks @ ks2)"
      and lp: "lp \<le> length path" and e: "emits d (t @ drop lp path) g"
      and cg: "c \<longrightarrow> g = length ks2"
      by (auto simp add: sregex_iterator_def)
    from f have "make_pattern path ks sep = (t @ drop lp path, ks @ ks2)"
      by (simp add: make_pattern_unfold substr_rest [OF lp])
    with e cg show "\<exists>t ks2 g. make_pattern path ks sep = (t, ks @ ks2) \<and> emits d t g
        \<and> (c \<longrightarrow> g = length ks2)"
      by blast
  qed
qed

lemma customs_ok_tokens:
  assumes sep: "sep = CHR ''/'' \<or> sep = bs" and ok: "customs_ok (custom_group c d) path"
  shows "\<forall>m \<in> set (sregex_iterator path rx). token_ok c d sep m"
proof
  fix m
  assume m: "m \<in> set (sregex_iterator path rx)"
  from ok m have a: "sub_matched (sub m required_param_pattern_idx)
           \<longrightarrow> custom_group c d (str (sub m required_param_pattern_idx))"
    and b: "sub_matched (sub m optional_param_key_idx)
             \<longrightarrow> customs_ok (custom_group c d) (str (sub m optional_param_key_idx))"
    by (subst (asm) customs_ok_iff, blast)+
  from b make_pattern_emits [OF sep] have "sub_matched (sub m optional_param_key_idx)
             \<longrightarrow> good_inner c d sep (str (sub m optional_param_key_idx))"
    by blast
  with a show "token_ok c d sep m" by (simp add: token_ok_def)
qed

lemma fold_mp_body_take:
  assumes sep: "sep = CHR ''/'' \<or> sep = bs"
  shows "off \<le> length path \<Longrightarrow> it = sregex_iterator_from rx path off (drop off path) \<Longrightarrow>
    \<forall>m \<in> set it. token_ok c d sep m \<Longrightarrow> j \<le> length it \<Longrightarrow>
    \<exists>offj t ks2 g. fold (mp_body path sep) (take j it) (off, pat, ks) = (offj, pat @ t, ks @ ks2)
      \<and> offj \<le> length path \<and> emits d t g \<and> (c \<longrightarrow> g = length ks2)
      \<and> drop j it = sregex_iterator_from rx path offj (drop offj path)"
proof (induction j arbitrary: off it pat ks)
  case 0
  with emits_Nil [of d] show ?case
    by (intro exI [of _ off] exI [of _ "[]"] exI [of _ 0]) simp
next
  case (Suc j)
  from Suc.prems(4) obtain m ms where it: "it = m # ms" by (cases it) auto
  from rx_iterator_Cons [OF Suc.prems(2) [symmetric, unfolded it] Suc.prems(1)]
  obtain pre rest' st sts where
    dr: "drop off path = pre @ rest'" and np: "\<forall>c \<in> set pre. \<not> is_special c"
    and mh: "match_here rx path rest' = st # sts" and m: "m = found (off + length pre) rest' st"
    and ms: "ms = sregex_iterator_from rx path (off + length pre + mlength m)
              (drop (off + length pre + mlength m) path)"
    and le: "off + length pre + mlength m \<le> length path"
    by blast
  let ?off' = "off + length pre + mlength m"
  from Suc.prems(3) it have okm: "token_ok c d sep m" and okms: "\<forall>m \<in> set ms. token_ok c d sep m"
    by simp_all
  from mp_body_step [OF sep dr np mh m okm, of pat ks] obtain frag k1 g1 where
    body: "mp_body path sep m (off, pat, ks) = (?off', pat @ pre @ frag, ks @ k1)"
    and e1: "emits d frag g1" and c1: "c \<longrightarrow> g1 = length k1"
    by blast
  from Suc.prems(4) it have j: "j \<le> length ms" by simp
  from Suc.IH [OF le ms okms j, of "pat @ pre @ frag" "ks @ k1"] obtain offj t k2 g2 where
    f: "fold (mp_body path sep) (take j ms) (?off', pat @ pre @ frag, ks @ k1)
          = (offj, (pat @ pre @ frag) @ t, (ks @ k1) @ k2)"
    and oj: "offj \<le> length path" and e2: "emits d t g2" and c2: "c \<longrightarrow> g2 = length k2"
    and dj: "drop j ms = sregex_iterator_from rx path offj (drop offj path)"
    by blast
  from emits_append [OF emits_append [OF emits_chars [OF np, of d] e1] e2]
  have "emits d (pre @ frag @ t) (g1 + g2)" by simp
  moreover have "fold (mp_body path sep) (take (Suc j) it) (off, pat, ks)
      = (offj, pat @ (pre @ frag @ t), ks @ (k1 @ k2))"
    using it body f by simp
  moreover have "c \<longrightarrow> g1 + g2 = length (k1 @ k2)" using c1 c2 by simp
  moreover have "drop (Suc j) it = sregex_iterator_from rx path offj (drop offj path)"
    using it dj by simp
  ultimately show ?case using oj by blast
qed

subsection \<open>The whole compiled pattern\<close>

lemma find_separator_cases: "find_separator p = CHR ''/'' \<or> find_separator p = bs"
  by (simp add: find_separator_def bs_def)

lemma step_escape_separator:
  "sep = CHR ''/'' \<or> sep = bs \<Longrightarrow>
   step_escape \<sigma> sep = Inr (\<sigma>\<lparr>cur := Chr sep # cur \<sigma>, mode := Normal\<rparr>)"
  by (erule disjE)
     (simp_all add: step_escape_def class_escape_def control_escape_def isdigit_def push_def bs_def)

lemma run_trailing_escaped:
  "sep = CHR ''/'' \<or> sep = bs \<Longrightarrow>
   run (Inr (add_atoms A n (initial_pstate\<lparr>cur := [Bol]\<rparr>))) ([bs, sep] @ ''?$'')
     = Inr ((add_atoms A n (initial_pstate\<lparr>cur := [Bol]\<rparr>))
              \<lparr>cur := Eol # Rep 0 (Some 1) True (Chr sep) # A @ [Bol]\<rparr>)"
  by (erule disjE)
     (simp_all add: step_def step_normal_def step_escape_separator add_atoms_def bs_def
        question_def quantify_def push_def initial_pstate_def)

lemma run_trailing_plain:
  "run (Inr (add_atoms (Chr sep # A') n (initial_pstate\<lparr>cur := [Bol]\<rparr>))) ''?$''
     = Inr ((add_atoms (Chr sep # A') n (initial_pstate\<lparr>cur := [Bol]\<rparr>))
              \<lparr>cur := Eol # Rep 0 (Some 1) True (Chr sep) # A' @ [Bol]\<rparr>)"
  by (simp add: step_def step_normal_def add_atoms_def initial_pstate_def
        question_def quantify_def push_def)

lemma level_ast_single: "level_ast [] atoms = seq_of (rev atoms)"
  by (simp add: level_ast_def)

text \<open>
  The text that the two-argument \<open>make_pattern\<close> builds around the pattern \<open>P\<close> of the
  loop, and the expression it parses to: \<open>^\<close>, the terms of \<open>P\<close>, an optional separator
  and \<open>$\<close>.
\<close>

definition anchored :: "regex list \<Rightarrow> char \<Rightarrow> regex" where
  "anchored atoms sep = seq_of (Bol # atoms @ [Rep 0 (Some 1) True (Chr sep), Eol])"

definition top_text :: "string \<Rightarrow> char \<Rightarrow> string" where
  "top_text P sep = ''^'' @ P @ (if P = [] \<or> last P \<noteq> sep then [bs, sep] else []) @ ''?$''"

lemma make_pattern_top_text:
  "make_pattern (percent_encode p) ks (find_separator p) = (P, ks') \<Longrightarrow>
   make_pattern_top p ks = (top_text P (find_separator p), ks')"
  by (simp add: make_pattern_top_def top_text_def Let_def)

lemma top_finish:
  assumes sep: "sep = CHR ''/'' \<or> sep = bs"
    and em: "emitted d P n (initial_pstate\<lparr>cur := [Bol]\<rparr>) A"
  shows "\<exists>A'. (A = A' \<or> A = Chr sep # A')
           \<and> regex_parse (top_text P sep) = Inr (anchored (rev A') sep, n)"
proof -
  let ?\<sigma>1 = "initial_pstate\<lparr>cur := [Bol]\<rparr>"
  have r0: "run (Inr initial_pstate) ''^'' = Inr ?\<sigma>1"
    by (simp add: step_def step_normal_def push_def initial_pstate_def)
  from em have rP: "run (Inr ?\<sigma>1) P = Inr (add_atoms A n ?\<sigma>1)"
    and lA: "P \<noteq> [] \<and> (last P = CHR ''/'' \<or> last P = bs) \<longrightarrow> A \<noteq> [] \<and> hd A = Chr (last P)"
    by (simp_all add: emitted_def)
  let ?\<sigma>2 = "add_atoms A n ?\<sigma>1"
  have fin: "regex_parse (''^'' @ P @ t) = Inr (anchored (rev A') sep, n)"
    if "run (Inr ?\<sigma>2) t = Inr (?\<sigma>2\<lparr>cur := Eol # Rep 0 (Some 1) True (Chr sep) # A' @ [Bol]\<rparr>)"
    for t A'
  proof -
    have "run (Inr initial_pstate) (''^'' @ P @ t) = run (run (run (Inr initial_pstate) ''^'') P) t"
      by (simp only: run_append)
    also have "\<dots> = Inr (?\<sigma>2\<lparr>cur := Eol # Rep 0 (Some 1) True (Chr sep) # A' @ [Bol]\<rparr>)"
      by (simp only: r0 rP that)
    finally show ?thesis
      by (simp add: regex_parse_def finish_def add_atoms_def initial_pstate_def level_ast_single
            anchored_def)
  qed
  show ?thesis
  proof (cases "P = [] \<or> last P \<noteq> sep")
    case True
    have "run (Inr ?\<sigma>2) ([bs, sep] @ ''?$'')
        = Inr (?\<sigma>2\<lparr>cur := Eol # Rep 0 (Some 1) True (Chr sep) # A @ [Bol]\<rparr>)"
      by (rule run_trailing_escaped [OF sep])
    from fin [OF this] True have "regex_parse (top_text P sep) = Inr (anchored (rev A) sep, n)"
      by (simp add: top_text_def)
    then show ?thesis by blast
  next
    case False
    with sep lA obtain A' where A: "A = Chr sep # A'" by (cases A) auto
    have "run (Inr ?\<sigma>2) ''?$''
        = Inr (?\<sigma>2\<lparr>cur := Eol # Rep 0 (Some 1) True (Chr sep) # A' @ [Bol]\<rparr>)"
      unfolding A by (rule run_trailing_plain)
    from fin [OF this] False have "regex_parse (top_text P sep) = Inr (anchored (rev A') sep, n)"
      by (simp add: top_text_def)
    with A show ?thesis by blast
  qed
qed

lemma top_parse:
  assumes ok: "customs_ok (custom_group c d) (percent_encode p)"
  shows "\<exists>atoms n. regex_parse (fst (make_pattern_top p [])) = Inr (anchored atoms (find_separator p), n)
          \<and> (c \<longrightarrow> n = length (snd (make_pattern_top p [])))
          \<and> (d \<longrightarrow> list_all no_eol atoms)"
proof -
  let ?sep = "find_separator p"
  note sep = find_separator_cases [of p]
  from make_pattern_emits [OF sep ok] obtain P ks n where
    mp: "make_pattern (percent_encode p) [] ?sep = (P, ks)" and e: "emits d P n"
    and cn: "c \<longrightarrow> n = length ks"
    unfolding good_inner_def by force
  let ?\<sigma>1 = "initial_pstate\<lparr>cur := [Bol]\<rparr>"
  have "mode ?\<sigma>1 = Normal" by (simp add: initial_pstate_def)
  from emitsD [OF e this] obtain A where A: "emitted d P n ?\<sigma>1 A" by blast
  from top_finish [OF sep A] obtain A' where
    A': "A = A' \<or> A = Chr ?sep # A'"
    and rp: "regex_parse (top_text P ?sep) = Inr (anchored (rev A') ?sep, n)"
    by blast
  from A have "d \<longrightarrow> list_all no_eol A" by (simp add: emitted_def)
  with A' have "d \<longrightarrow> list_all no_eol (rev A')" by auto
  with rp cn make_pattern_top_text [OF mp] show ?thesis by auto
qed

lemma match_customs_ok:
  assumes ok: "customs_ok (custom_group c d) (percent_encode p)"
  shows "\<exists>atoms n. match p sens = Inr \<lparr>m_pattern = fst (make_pattern_top p []),
            m_regex = \<lparr>re_ast = anchored atoms (find_separator p), re_marks = n,
                       re_icase = (sens = case_insensitive)\<rparr>,
            m_keys = snd (make_pattern_top p [])\<rparr>
          \<and> (c \<longrightarrow> n = length (snd (make_pattern_top p [])))
          \<and> (d \<longrightarrow> list_all no_eol atoms)"
proof -
  from top_parse [OF ok] obtain atoms n where
    rp: "regex_parse (fst (make_pattern_top p [])) = Inr (anchored atoms (find_separator p), n)"
    and cn: "c \<longrightarrow> n = length (snd (make_pattern_top p []))"
    and ne: "d \<longrightarrow> list_all no_eol atoms"
    by blast
  have "make_pattern_top p [] = (fst (make_pattern_top p []), snd (make_pattern_top p []))"
    by simp
  from match_eval [OF this rp, of sens] cn ne show ?thesis by blast
qed


lemma capturing_customs_marks:
  assumes m: "match p sens = Inr m" and cf: "capturing_customs (percent_encode p)"
  shows "re_marks (m_regex m) = length (m_keys m)"
  using match_customs_ok [OF cf [unfolded capturing_customs_def], of sens] m by auto

subsection \<open>Matching a longer input\<close>


definition extend_input :: "string \<Rightarrow> mstate \<Rightarrow> mstate" where
  "extend_input t st = (fst st @ t, snd st)"

lemma extend_input_simps: "fst (extend_input t st) = fst st @ t" "snd (extend_input t st) = snd st"
  by (simp_all add: extend_input_def)


lemma rmatch_seq_of_Cons:
  "rmatch ic s (seq_of (a # as)) st = concat (map (rmatch ic s (seq_of as)) (rmatch ic s a st))"
  by (simp add: seq_of_def)

lemma rmatch_seq_of_append:
  "st' \<in> set (rmatch ic s (seq_of (xs @ ys)) st) \<longleftrightarrow>
     (\<exists>st1 \<in> set (rmatch ic s (seq_of xs) st). st' \<in> set (rmatch ic s (seq_of ys) st1))"
proof (induction xs arbitrary: st)
  case Nil
  show ?case by (simp add: seq_of_def)
next
  case (Cons a xs)
  show ?case by (auto simp add: rmatch_seq_of_Cons Cons)
qed












subsection \<open>Optional groups in the compiled pattern\<close>

text \<open>
  \<open>tokens p\<close> are the tokenizer's matches in the encoded pattern, and \<open>keys_upto p j\<close> is
  the key list after the compiler's loop has handled the first \<open>j\<close> of them.
\<close>

definition tokens :: "string \<Rightarrow> match_results list" where
  "tokens p = sregex_iterator (percent_encode p) rx"

definition keys_upto :: "string \<Rightarrow> nat \<Rightarrow> string list" where
  "keys_upto p j =
     snd (snd (fold (mp_body (percent_encode p) (find_separator p)) (take j (tokens p)) (0, [], [])))"

text \<open>
  A match \<open>mr\<close> of the input \<open>e\<close> skips what lies between \<open>pre\<close> and \<open>post\<close> when its
  sub-matches are those of a run that matches \<open>pre\<close> and then, at once, \<open>post\<close>.
\<close>

definition skips :: "basic_regex \<Rightarrow> string \<Rightarrow> regex list \<Rightarrow> regex list \<Rightarrow> match_results \<Rightarrow> bool" where
  "skips re e pre post mr \<longleftrightarrow>
     (\<exists>st1 \<in> set (rmatch (re_icase re) e (seq_of pre) (e, replicate (re_marks re) None)).
        \<exists>st2 \<in> set (rmatch (re_icase re) e (seq_of post) st1).
          fst st2 = [] \<and> subs mr = Some e # snd st2)"

text \<open>
  Such a run is a run of the whole expression \<open>pre (?:r)? post\<close>, in which the optional
  group is matched by the empty text.
\<close>

lemma rmatch_optional_skip: "st \<in> set (rmatch ic s (Rep 0 (Some 1) True r) st)"
  by (subst rmatch.simps(11)) (simp add: Let_def)

lemma skips_is_run:
  assumes sk: "skips re e pre post mr"
    and ast: "re_ast re = seq_of (pre @ [Rep 0 (Some 1) True r] @ post)"
  shows "\<exists>st \<in> set (match_here re e e). fst st = [] \<and> subs mr = Some e # snd st"
proof -
  let ?init = "(e, replicate (re_marks re) (None :: string option))"
  from sk obtain st1 st2 where
    st1: "st1 \<in> set (rmatch (re_icase re) e (seq_of pre) ?init)"
    and st2: "st2 \<in> set (rmatch (re_icase re) e (seq_of post) st1)"
    and fin: "fst st2 = []" "subs mr = Some e # snd st2"
    unfolding skips_def by blast
  from rmatch_optional_skip [of st1 "re_icase re" e r] st2
  have "st2 \<in> set (rmatch (re_icase re) e (seq_of ([Rep 0 (Some 1) True r] @ post)) st1)"
    by (subst rmatch_seq_of_append) (auto simp add: seq_of_def)
  with st1 have "st2 \<in> set (rmatch (re_icase re) e (seq_of (pre @ [Rep 0 (Some 1) True r] @ post)) ?init)"
    by (subst rmatch_seq_of_append) blast
  then have "st2 \<in> set (match_here re e e)" by (simp add: match_here_def ast)
  with fin show ?thesis by blast
qed

lemma skips_unmatched:
  assumes sk: "skips re e pre post mr"
    and out: "\<forall>g \<in> set (groups_in pre @ groups_in post). g - 1 \<noteq> i"
  shows "sub mr (Suc i) = None"
proof -
  let ?n = "re_marks re"
  from sk obtain st1 st2 where
    st1: "st1 \<in> set (rmatch (re_icase re) e (seq_of pre) (e, replicate ?n None))"
    and st2: "st2 \<in> set (rmatch (re_icase re) e (seq_of post) st1)"
    and mr: "subs mr = Some e # snd st2"
    unfolding skips_def by blast
  from out have o1: "\<forall>g \<in> set (groups_of (seq_of pre)). g - 1 \<noteq> i"
    and o2: "\<forall>g \<in> set (groups_of (seq_of post)). g - 1 \<noteq> i"
    by (simp_all add: groups_of_seq_of)
  from rmatch_untouched [OF st1 o1] rmatch_untouched [OF st2 o2]
  have eq: "snd st2 ! i = replicate ?n None ! i" by simp
  from rmatch_cap_ok [OF st1] rmatch_cap_ok [OF st2] have len: "length (snd st2) = ?n"
    by (simp add: cap_ok_def)
  show ?thesis
  proof (cases "i < ?n")
    case True
    with eq len mr show ?thesis by (simp add: sub_def)
  next
    case False
    with len mr show ?thesis by (simp add: sub_def)
  qed
qed

lemma optional_group_structure:
  assumes ok: "capturing_customs (percent_encode p)"
    and j: "j < length (tokens p)"
    and opt: "sub_matched (sub (tokens p ! j) optional_param_key_idx)"
    and ab: "length (keys_upto p j) < length (keys_upto p (Suc j))"
  shows "\<exists>pre r post. regex_parse (fst (make_pattern_top p []))
            = Inr (seq_of (pre @ [Rep 0 (Some 1) True (NGroup r)] @ post),
                   length (snd (make_pattern_top p [])))
          \<and> groups_in pre = [1..<Suc (length (keys_upto p j))]
          \<and> groups_of r = [Suc (length (keys_upto p j))..<Suc (length (keys_upto p (Suc j)))]
          \<and> groups_in post = [Suc (length (keys_upto p (Suc j)))..<Suc (length (snd (make_pattern_top p [])))]
          \<and> keys_upto p (Suc j) = take (length (keys_upto p (Suc j))) (snd (make_pattern_top p []))"
proof -
  let ?ep = "percent_encode p"
  let ?sep = "find_separator p"
  let ?toks = "tokens p"
  note sep = find_separator_cases [of p]
  have toks: "?toks = sregex_iterator_from rx ?ep 0 (drop 0 ?ep)"
    by (simp add: tokens_def sregex_iterator_def)
  from customs_ok_tokens [OF sep ok [unfolded capturing_customs_def]]
  have all: "\<forall>m \<in> set ?toks. token_ok True False ?sep m" by (simp add: tokens_def)
  from j have jle: "j \<le> length ?toks" by simp
  from fold_mp_body_take [OF sep _ toks all jle, of "[]" "[]"] obtain offj t1 k1 g1 where
    f1: "fold (mp_body ?ep ?sep) (take j ?toks) (0, [], []) = (offj, t1, k1)"
    and oj: "offj \<le> length ?ep" and e1: "emits False t1 g1" and c1: "g1 = length k1"
    and dj: "drop j ?toks = sregex_iterator_from rx ?ep offj (drop offj ?ep)"
    by auto
  let ?m = "?toks ! j"
  let ?ms = "drop (Suc j) ?toks"
  from j have dc: "drop j ?toks = ?m # ?ms" by (simp add: Cons_nth_drop_Suc)
  from rx_iterator_Cons [OF dj [symmetric, unfolded dc] oj] obtain pre' rest' st sts where
    dr: "drop offj ?ep = pre' @ rest'" and np: "\<forall>c \<in> set pre'. \<not> is_special c"
    and mh: "match_here rx ?ep rest' = st # sts" and m: "?m = found (offj + length pre') rest' st"
    and ms: "?ms = sregex_iterator_from rx ?ep (offj + length pre' + mlength ?m)
              (drop (offj + length pre' + mlength ?m) ?ep)"
    and le: "offj + length pre' + mlength ?m \<le> length ?ep"
    by blast
  let ?off' = "offj + length pre' + mlength ?m"
  from all j have okm: "token_ok True False ?sep ?m" by simp
  from mp_body_step [OF sep dr np mh m okm, of t1 k1] obtain frag k2 g2 where
    body: "mp_body ?ep ?sep ?m (offj, t1, k1) = (?off', t1 @ pre' @ frag, k1 @ k2)"
    and e2: "emits False frag g2" and c2: "g2 = length k2"
    and og: "sub_matched (sub ?m optional_param_key_idx) \<and> frag \<noteq> []
                 \<longrightarrow> emits_optional_group False frag g2"
    by auto
  have ku: "keys_upto p j = k1" using f1 by (simp add: keys_upto_def)
  have "take (Suc j) ?toks = take j ?toks @ [?m]" using j by (simp add: take_Suc_conv_app_nth)
  then have ku': "keys_upto p (Suc j) = k1 @ k2" using f1 body by (simp add: keys_upto_def)
  from ab ku ku' c2 have "g2 \<noteq> 0" by simp
  with e2 have "frag \<noteq> []" using emits_Nil_zero by auto
  with og opt have eo: "emits_optional_group False frag g2" by simp
  have okms: "\<forall>m \<in> set (sregex_iterator_from rx ?ep ?off' (drop ?off' ?ep)). token_ok True False ?sep m"
    using all ms [symmetric] by (auto dest: in_set_dropD)
  from fold_mp_body [OF sep le okms, of "t1 @ pre' @ frag" "k1 @ k2"] obtain lp t3 k3 g3 where
    f3: "fold (mp_body ?ep ?sep) (sregex_iterator_from rx ?ep ?off' (drop ?off' ?ep))
           (?off', t1 @ pre' @ frag, k1 @ k2) = (lp, (t1 @ pre' @ frag) @ t3, (k1 @ k2) @ k3)"
    and lp: "lp \<le> length ?ep" and e3: "emits False (t3 @ drop lp ?ep) g3" and c3: "g3 = length k3"
    by auto
  have "?toks = take j ?toks @ ?m # ?ms" using dc by (metis append_take_drop_id)
  then have "fold (mp_body ?ep ?sep) ?toks (0, [], [])
      = fold (mp_body ?ep ?sep) ?ms (mp_body ?ep ?sep ?m (fold (mp_body ?ep ?sep) (take j ?toks) (0, [], [])))"
    by (metis fold_append fold_Cons comp_apply)
  with f1 body f3 ms have "fold (mp_body ?ep ?sep) (sregex_iterator ?ep rx) (0, [], [])
      = (lp, (t1 @ pre' @ frag) @ t3, (k1 @ k2) @ k3)"
    by (simp add: tokens_def)
  then have mp: "make_pattern ?ep [] ?sep = ((t1 @ pre') @ frag @ (t3 @ drop lp ?ep), k1 @ k2 @ k3)"
    by (simp add: make_pattern_unfold substr_rest [OF lp])
  let ?P = "(t1 @ pre') @ frag @ (t3 @ drop lp ?ep)"
  let ?\<sigma>1 = "initial_pstate\<lparr>cur := [Bol]\<rparr>"
  have m1: "mode ?\<sigma>1 = Normal" and n1: "ngroups ?\<sigma>1 = 0" by (simp_all add: initial_pstate_def)
  from emits_append [OF e1 emits_chars [OF np, of False]] have "emits False (t1 @ pre') g1" by simp
  from emitsD [OF this m1] obtain A1 where A1: "emitted False (t1 @ pre') g1 ?\<sigma>1 A1" by blast
  let ?\<sigma>2 = "add_atoms A1 g1 ?\<sigma>1"
  have m2: "mode ?\<sigma>2 = Normal" using m1 by (simp add: add_atoms_simps)
  from eo m2 obtain r where r: "emitted False frag g2 ?\<sigma>2 [Rep 0 (Some 1) True (NGroup r)]"
    unfolding emits_optional_group_def by blast
  let ?opt = "Rep 0 (Some 1) True (NGroup r)"
  from emitted_append [OF A1 r] have A12: "emitted False ((t1 @ pre') @ frag) (g1 + g2) ?\<sigma>1 ([?opt] @ A1)" .
  let ?\<sigma>3 = "add_atoms ([?opt] @ A1) (g1 + g2) ?\<sigma>1"
  have m3: "mode ?\<sigma>3 = Normal" using m1 by (simp add: add_atoms_simps)
  from emitsD [OF e3 m3] obtain A3 where A3: "emitted False (t3 @ drop lp ?ep) g3 ?\<sigma>3 A3" by blast
  from emitted_append [OF A12 A3]
  have A: "emitted False ?P (g1 + g2 + g3) ?\<sigma>1 (A3 @ [?opt] @ A1)" by simp
  from top_finish [OF sep A] obtain A' where
    A': "A3 @ [?opt] @ A1 = A' \<or> A3 @ [?opt] @ A1 = Chr ?sep # A'"
    and rp: "regex_parse (top_text ?P ?sep) = Inr (anchored (rev A') ?sep, g1 + g2 + g3)"
    by blast
  from A' obtain A3' where a3: "A' = A3' @ [?opt] @ A1" and g3': "groups_in (rev A3') = groups_in (rev A3)"
  proof
    assume "A3 @ [?opt] @ A1 = A'"
    then have "A' = A3 @ [?opt] @ A1 \<and> groups_in (rev A3) = groups_in (rev A3)" by simp
    with that show ?thesis by blast
  next
    assume c: "A3 @ [?opt] @ A1 = Chr ?sep # A'"
    then obtain A3' where "A3 = Chr ?sep # A3'" by (cases A3) auto
    with c have "A' = A3' @ [?opt] @ A1 \<and> groups_in (rev A3') = groups_in (rev A3)"
      by (simp add: groups_in_simps)
    with that show ?thesis by blast
  qed
  let ?pre = "Bol # rev A1"
  let ?post = "rev A3' @ [Rep 0 (Some 1) True (Chr ?sep), Eol]"
  have shape: "anchored (rev A') ?sep = seq_of (?pre @ [?opt] @ ?post)"
    by (simp add: anchored_def a3)
  from A1 n1 have gp: "groups_in ?pre = [1..<Suc g1]"
    by (simp add: emitted_def groups_in_simps)
  from r have gr: "groups_of r = [Suc g1..<Suc (g1 + g2)]"
    by (simp add: emitted_def groups_in_simps add_atoms_simps n1)
  from A3 g3' have gq: "groups_in ?post = [Suc (g1 + g2)..<Suc (g1 + g2 + g3)]"
    by (simp add: emitted_def groups_in_simps add_atoms_simps n1)
  from make_pattern_top_text [OF mp] have top: "make_pattern_top p [] = (top_text ?P ?sep, k1 @ k2 @ k3)" .
  have n_eq: "length (snd (make_pattern_top p [])) = g1 + g2 + g3" using top c1 c2 c3 by simp
  have fst_top: "fst (make_pattern_top p []) = top_text ?P ?sep" using top by simp
  have a_eq: "length (keys_upto p j) = g1" using ku c1 by simp
  have b_eq: "length (keys_upto p (Suc j)) = g1 + g2" using ku' c1 c2 by simp
  have "regex_parse (fst (make_pattern_top p []))
            = Inr (seq_of (?pre @ [?opt] @ ?post), length (snd (make_pattern_top p [])))"
    by (simp only: fst_top rp shape n_eq)
  moreover have "groups_in ?pre = [1..<Suc (length (keys_upto p j))]"
    using gp by (simp only: a_eq)
  moreover have "groups_of r = [Suc (length (keys_upto p j))..<Suc (length (keys_upto p (Suc j)))]"
    using gr by (simp only: a_eq b_eq)
  moreover have "groups_in ?post
      = [Suc (length (keys_upto p (Suc j)))..<Suc (length (snd (make_pattern_top p [])))]"
    using gq by (simp only: n_eq b_eq)
  moreover have "keys_upto p (Suc j) = take (length (keys_upto p (Suc j))) (snd (make_pattern_top p []))"
    using ku' top by simp
  ultimately show ?thesis by blast
qed

section \<open>Capturing groups, keys and the trailing separator\<close>

subsection \<open>More concrete matchers\<close>



































definition custom_noncapturing_ast :: regex where
  "custom_noncapturing_ast = Seq Bol (Seq (Chr CHR ''/'')
     (Seq (NGroup (Seq (Chr CHR ''b'') (Seq (Chr CHR ''a'') (Seq (Chr CHR ''r'') Epsilon))))
       (Seq (Rep 0 (Some 1) True (Chr CHR ''/'')) (Seq Eol Epsilon))))"

definition custom_noncapturing_matcher :: matcher where
  "custom_noncapturing_matcher = \<lparr>m_pattern = ''^/(?:bar)'' @ [bs] @ ''/?$'',
       m_regex = \<lparr>re_ast = custom_noncapturing_ast, re_marks = 0, re_icase = False\<rparr>,
       m_keys = [''foo'']\<rparr>"

lemma make_pattern_custom_noncapturing:
  "make_pattern ''/:foo(?:bar)'' [] CHR ''/'' = (''/(?:bar)'', [''foo''])"
  by code_simp

lemma make_pattern_top_custom_noncapturing:
  "make_pattern_top ''/:foo(?:bar)'' [] = (''^/(?:bar)'' @ [bs] @ ''/?$'', [''foo''])"
proof -
  have "percent_encode ''/:foo(?:bar)'' = ''/:foo(?:bar)''" by code_simp
  moreover have "find_separator ''/:foo(?:bar)'' = CHR ''/''"
    by (simp add: find_separator_def find_char_def npos_def)
  ultimately show ?thesis
    using make_pattern_top_eval [OF _ _ make_pattern_custom_noncapturing] by simp
qed

lemma regex_parse_custom_noncapturing:
  "regex_parse (''^/(?:bar)'' @ [bs] @ ''/?$'') = Inr (custom_noncapturing_ast, 0)"
  by code_simp

lemma match_custom_noncapturing:
  "match ''/:foo(?:bar)'' case_sensitive = Inr custom_noncapturing_matcher"
  using match_eval [OF make_pattern_top_custom_noncapturing regex_parse_custom_noncapturing,
      of case_sensitive]
  by (simp add: custom_noncapturing_matcher_def)

definition custom_bracket_ast :: regex where
  "custom_bracket_ast = Seq Bol (Seq (Chr CHR ''/'')
     (Seq (Group 1 (Seq (Rep 1 None False
           (Cls False [CChar CHR ''x'', CChar CHR '')'', CChar CHR ''/'', CChar CHR ''('',
              CChar CHR ''['', CChar CHR ''^'', CChar CHR ''/''])) Epsilon))
       (Seq (Rep 0 (Some 1) True (Chr CHR ''/'')) (Seq Eol Epsilon))))"

definition custom_bracket_matcher :: matcher where
  "custom_bracket_matcher = \<lparr>m_pattern = ''^/([x)/([^'' @ [bs] @ ''/]+?)'' @ [bs] @ ''/?$'',
       m_regex = \<lparr>re_ast = custom_bracket_ast, re_marks = 1, re_icase = False\<rparr>,
       m_keys = [''a'', ''b'']\<rparr>"

lemma make_pattern_custom_bracket:
  "make_pattern ''/:a([x)/:b'' [] CHR ''/'' = (''/([x)/([^'' @ [bs] @ ''/]+?)'', [''a'', ''b''])"
  by code_simp

lemma make_pattern_top_custom_bracket:
  "make_pattern_top ''/:a([x)/:b'' []
     = (''^/([x)/([^'' @ [bs] @ ''/]+?)'' @ [bs] @ ''/?$'', [''a'', ''b''])"
proof -
  have "percent_encode ''/:a([x)/:b'' = ''/:a([x)/:b''" by code_simp
  moreover have "find_separator ''/:a([x)/:b'' = CHR ''/''"
    by (simp add: find_separator_def find_char_def npos_def)
  ultimately show ?thesis
    using make_pattern_top_eval [OF _ _ make_pattern_custom_bracket] by (simp add: bs_def)
qed

lemma regex_parse_custom_bracket:
  "regex_parse (''^/([x)/([^'' @ [bs] @ ''/]+?)'' @ [bs] @ ''/?$'') = Inr (custom_bracket_ast, 1)"
  by code_simp

lemma match_custom_bracket:
  "match ''/:a([x)/:b'' case_sensitive = Inr custom_bracket_matcher"
  using match_eval [OF make_pattern_top_custom_bracket regex_parse_custom_bracket,
      of case_sensitive]
  by (simp add: custom_bracket_matcher_def)

text \<open>
  C3 as stated (as many capturing groups as keys, for every compiled matcher) fails: a
  custom sub-pattern is spliced in as it is written.  So \<open>/:foo(?:bar)\<close> compiles to
  \<open>^/(?:bar)\/?$\<close>, with one key and no capturing group; and in \<open>/:a([x)/:b\<close> the
  bracket that the custom sub-pattern leaves open swallows the group of \<open>b\<close>, which gives
  two keys and one capturing group.
\<close>

theorem one_group_per_key_counterexample:
  "match ''/:foo(?:bar)'' case_sensitive = Inr custom_noncapturing_matcher
   \<and> length (m_keys custom_noncapturing_matcher) = 1
   \<and> re_marks (m_regex custom_noncapturing_matcher) = 0
   \<and> match ''/:a([x)/:b'' case_sensitive = Inr custom_bracket_matcher
   \<and> length (m_keys custom_bracket_matcher) = 2
   \<and> re_marks (m_regex custom_bracket_matcher) = 1"
  using match_custom_noncapturing match_custom_bracket
  by (simp add: custom_noncapturing_matcher_def custom_bracket_matcher_def)

text \<open>
  C3 amended: for every matcher compiled from a pattern whose custom sub-patterns are each
  one capturing group on their own, the compiled pattern has exactly as many capturing
  groups as the matcher has keys; and for every compiled matcher, a successful match gives
  a parameter mapping whose keys are exactly the names of the key list, where a name is
  bound to the decoded text of the capturing group of its last occurrence in the list
  (group \<open>i + 1\<close> for index \<open>i\<close>).
\<close>

theorem one_group_per_key_with_capturing_customs:
  "match p sens = Inr m \<Longrightarrow>
   (capturing_customs (percent_encode p) \<longrightarrow> re_marks (m_regex m) = length (m_keys m))
   \<and> (regex_match (m_regex m) (percent_encode path) = Some mr \<longrightarrow>
        matched (matcher_call m path)
        \<and> dom (params (matcher_call m path)) = set (m_keys m)
        \<and> (\<forall>i. i < length (m_keys m)
                \<and> (\<forall>j. i < j \<and> j < length (m_keys m) \<longrightarrow> m_keys m ! j \<noteq> m_keys m ! i)
              \<longrightarrow> params (matcher_call m path) (m_keys m ! i)
                    = Some (percent_decode (str (sub mr (i + 1))))))"
proof (intro conjI impI allI)
  assume m: "match p sens = Inr m" and cf: "capturing_customs (percent_encode p)"
  then show "re_marks (m_regex m) = length (m_keys m)" by (rule capturing_customs_marks)
next
  assume r: "regex_match (m_regex m) (percent_encode path) = Some mr"
  then show mt: "matched (matcher_call m path)" by (simp add: matcher_call_matched)
  then show "dom (params (matcher_call m path)) = set (m_keys m)" by (rule matcher_call_dom)
  fix i
  assume "i < length (m_keys m)
      \<and> (\<forall>j. i < j \<and> j < length (m_keys m) \<longrightarrow> m_keys m ! j \<noteq> m_keys m ! i)"
  then show "params (matcher_call m path) (m_keys m ! i) = Some (percent_decode (str (sub mr (i + 1))))"
    using matcher_call_last [OF r] by blast
qed

definition twice_pattern :: string where
  "twice_pattern = ''/:a('' @ [bs] @ ''d+)/:a''"

definition twice_ast :: regex where
  "twice_ast = Seq Bol (Seq (Chr CHR ''/'')
     (Seq (Group 1 (Seq (Rep 1 None True (Cls False [CDigit True])) Epsilon))
       (Seq (Chr CHR ''/'')
         (Seq (Group 2 (Seq (Rep 1 None False (Cls True [CChar CHR ''/''])) Epsilon))
           (Seq (Rep 0 (Some 1) True (Chr CHR ''/'')) (Seq Eol Epsilon))))))"

definition twice_matcher :: matcher where
  "twice_matcher = \<lparr>m_pattern = ''^/('' @ [bs] @ ''d+)/([^'' @ [bs] @ ''/]+?)'' @ [bs] @ ''/?$'',
       m_regex = \<lparr>re_ast = twice_ast, re_marks = 2, re_icase = False\<rparr>, m_keys = [''a'', ''a'']\<rparr>"

lemma make_pattern_twice:
  "make_pattern twice_pattern [] CHR ''/''
     = (''/('' @ [bs] @ ''d+)/([^'' @ [bs] @ ''/]+?)'', [''a'', ''a''])"
  by code_simp

lemma percent_encode_twice: "percent_encode twice_pattern = twice_pattern"
  by code_simp

lemma make_pattern_top_twice:
  "make_pattern_top twice_pattern []
     = (''^/('' @ [bs] @ ''d+)/([^'' @ [bs] @ ''/]+?)'' @ [bs] @ ''/?$'', [''a'', ''a''])"
proof -
  have "find_separator twice_pattern = CHR ''/''"
    by (simp add: find_separator_def find_char_def npos_def twice_pattern_def bs_def)
  from make_pattern_top_eval [OF percent_encode_twice this make_pattern_twice]
  show ?thesis by (simp add: bs_def)
qed

lemma regex_parse_twice:
  "regex_parse (''^/('' @ [bs] @ ''d+)/([^'' @ [bs] @ ''/]+?)'' @ [bs] @ ''/?$'')
     = Inr (twice_ast, 2)"
  by code_simp

lemma match_twice: "match twice_pattern case_sensitive = Inr twice_matcher"
  using match_eval [OF make_pattern_top_twice regex_parse_twice, of case_sensitive]
  by (simp add: twice_matcher_def)

lemma capturing_customs_twice: "capturing_customs (percent_encode twice_pattern)"
  by code_simp

lemma twice_1_y:
  "regex_match (m_regex twice_matcher) (percent_encode ''/1/y'')
     = Some \<lparr>position = 0, subs = [Some ''/1/y'', Some ''1'', Some ''y'']\<rparr>"
  by code_simp

theorem one_group_per_key_with_capturing_customs_witness:
  "match twice_pattern case_sensitive = Inr twice_matcher
   \<and> capturing_customs (percent_encode twice_pattern)
   \<and> re_marks (m_regex twice_matcher) = length (m_keys twice_matcher)
   \<and> matched (matcher_call twice_matcher ''/1/y'')
   \<and> dom (params (matcher_call twice_matcher ''/1/y'')) = {''a''}
   \<and> params (matcher_call twice_matcher ''/1/y'') ''a'' = Some ''y''"
proof -
  have d: "percent_decode ''y'' = ''y''" by code_simp
  from one_group_per_key_with_capturing_customs [OF match_twice, of "''/1/y''"
      "\<lparr>position = 0, subs = [Some ''/1/y'', Some ''1'', Some ''y'']\<rparr>"]
    capturing_customs_twice twice_1_y
  have "re_marks (m_regex twice_matcher) = length (m_keys twice_matcher)"
    and "matched (matcher_call twice_matcher ''/1/y'')"
    and "dom (params (matcher_call twice_matcher ''/1/y'')) = set (m_keys twice_matcher)"
    and "\<forall>i. i < length (m_keys twice_matcher)
                \<and> (\<forall>j. i < j \<and> j < length (m_keys twice_matcher)
                      \<longrightarrow> m_keys twice_matcher ! j \<noteq> m_keys twice_matcher ! i)
              \<longrightarrow> params (matcher_call twice_matcher ''/1/y'') (m_keys twice_matcher ! i)
                    = Some (percent_decode (str (sub
                        \<lparr>position = 0, subs = [Some ''/1/y'', Some ''1'', Some ''y'']\<rparr> (i + 1))))"
    by blast+
  from this(1,2,3) this(4) [rule_format, of 1] d match_twice capturing_customs_twice
  show ?thesis by (simp add: twice_matcher_def sub_def str_def)
qed

section \<open>Optional groups that take no part in a match\<close>

lemma keys_upto_eval:
  "percent_encode p = e \<Longrightarrow> find_separator p = sep \<Longrightarrow>
   keys_upto p j = snd (snd (fold (mp_body e sep) (take j (sregex_iterator e rx)) (0, [], [])))"
  by (simp add: keys_upto_def tokens_def)

definition opt_foo_group :: regex where
  "opt_foo_group = Seq (Chr CHR ''/'')
     (Seq (Group 1 (Seq (Rep 1 None False (Cls True [CChar CHR ''/''])) Epsilon)) Epsilon)"

definition opt_foo_post :: "regex list" where
  "opt_foo_post = [Rep 0 (Some 1) True (Chr CHR ''/''), Eol]"

lemma opt_foo_ast_parts:
  "opt_foo_ast = seq_of ([Bol] @ [Rep 0 (Some 1) True (NGroup opt_foo_group)] @ opt_foo_post)"
  by (simp add: opt_foo_ast_def opt_foo_group_def opt_foo_post_def seq_of_def)

lemma percent_encode_opt_foo: "percent_encode ''{/:foo}'' = ''{/:foo}''"
  by code_simp

lemma find_separator_opt_foo: "find_separator ''{/:foo}'' = CHR ''/''"
  by (simp add: find_separator_def find_char_def npos_def)

lemma keys_upto_opt_foo: "keys_upto ''{/:foo}'' 0 = []" "keys_upto ''{/:foo}'' (Suc 0) = [''foo'']"
proof -
  have "snd (snd (fold (mp_body ''{/:foo}'' CHR ''/'') (take 0 (sregex_iterator ''{/:foo}'' rx))
      (0, [], []))) = []"
    by code_simp
  then show "keys_upto ''{/:foo}'' 0 = []"
    by (simp only: keys_upto_eval [OF percent_encode_opt_foo find_separator_opt_foo])
  have "snd (snd (fold (mp_body ''{/:foo}'' CHR ''/'') (take (Suc 0) (sregex_iterator ''{/:foo}'' rx))
      (0, [], []))) = [''foo'']"
    by code_simp
  then show "keys_upto ''{/:foo}'' (Suc 0) = [''foo'']"
    by (simp only: keys_upto_eval [OF percent_encode_opt_foo find_separator_opt_foo])
qed

lemma tokens_opt_foo:
  "0 < length (tokens ''{/:foo}'')"
  "sub_matched (sub (tokens ''{/:foo}'' ! 0) optional_param_key_idx)"
  by code_simp+

lemma capturing_customs_opt_foo: "capturing_customs (percent_encode ''{/:foo}'')"
  by code_simp

lemma skips_opt_foo:
  "skips (m_regex opt_foo_matcher) (percent_encode []) [Bol] opt_foo_post
     \<lparr>position = 0, subs = [Some [], None]\<rparr>"
  by code_simp


definition dup_post :: "regex list" where
  "dup_post = [Chr CHR ''/'',
     Group 2 (Seq (Rep 1 None False (Cls True [CChar CHR ''/''])) Epsilon),
     Rep 0 (Some 1) True (Chr CHR ''/''), Eol]"

definition dup_matcher :: matcher where
  "dup_matcher = \<lparr>m_pattern = ''^(?:/([^'' @ [bs] @ ''/]+?))?/([^'' @ [bs] @ ''/]+?)'' @ [bs] @ ''/?$'',
       m_regex = \<lparr>re_ast = seq_of ([Bol] @ [Rep 0 (Some 1) True (NGroup opt_foo_group)] @ dup_post),
                  re_marks = 2, re_icase = False\<rparr>,
       m_keys = [''a'', ''a'']\<rparr>"

lemma percent_encode_dup: "percent_encode ''{/:a}/:a'' = ''{/:a}/:a''"
  by code_simp

lemma find_separator_dup: "find_separator ''{/:a}/:a'' = CHR ''/''"
  by (simp add: find_separator_def find_char_def npos_def)

lemma make_pattern_dup:
  "make_pattern ''{/:a}/:a'' [] CHR ''/''
     = (''(?:/([^'' @ [bs] @ ''/]+?))?/([^'' @ [bs] @ ''/]+?)'', [''a'', ''a''])"
  by code_simp

lemma make_pattern_top_dup:
  "make_pattern_top ''{/:a}/:a'' []
     = (''^(?:/([^'' @ [bs] @ ''/]+?))?/([^'' @ [bs] @ ''/]+?)'' @ [bs] @ ''/?$'', [''a'', ''a''])"
  using make_pattern_top_eval [OF percent_encode_dup find_separator_dup make_pattern_dup]
  by (simp add: bs_def)

lemma regex_parse_dup:
  "regex_parse (''^(?:/([^'' @ [bs] @ ''/]+?))?/([^'' @ [bs] @ ''/]+?)'' @ [bs] @ ''/?$'')
     = Inr (seq_of ([Bol] @ [Rep 0 (Some 1) True (NGroup opt_foo_group)] @ dup_post), 2)"
  by code_simp

lemma match_dup: "match ''{/:a}/:a'' case_sensitive = Inr dup_matcher"
  using match_eval [OF make_pattern_top_dup regex_parse_dup, of case_sensitive]
  by (simp add: dup_matcher_def)

lemma keys_upto_dup: "keys_upto ''{/:a}/:a'' 0 = []" "keys_upto ''{/:a}/:a'' (Suc 0) = [''a'']"
proof -
  have "snd (snd (fold (mp_body ''{/:a}/:a'' CHR ''/'') (take 0 (sregex_iterator ''{/:a}/:a'' rx))
      (0, [], []))) = []"
    by code_simp
  then show "keys_upto ''{/:a}/:a'' 0 = []"
    by (simp only: keys_upto_eval [OF percent_encode_dup find_separator_dup])
  have "snd (snd (fold (mp_body ''{/:a}/:a'' CHR ''/'') (take (Suc 0) (sregex_iterator ''{/:a}/:a'' rx))
      (0, [], []))) = [''a'']"
    by code_simp
  then show "keys_upto ''{/:a}/:a'' (Suc 0) = [''a'']"
    by (simp only: keys_upto_eval [OF percent_encode_dup find_separator_dup])
qed

lemma tokens_dup: "sub_matched (sub (tokens ''{/:a}/:a'' ! 0) optional_param_key_idx)"
  by code_simp

lemma regex_match_dup:
  "regex_match (m_regex dup_matcher) (percent_encode ''/y'')
     = Some \<lparr>position = 0, subs = [Some ''/y'', None, Some ''y'']\<rparr>"
  by code_simp

lemma skips_dup:
  "skips (m_regex dup_matcher) (percent_encode ''/y'') [Bol] dup_post
     \<lparr>position = 0, subs = [Some ''/y'', None, Some ''y'']\<rparr>"
  by code_simp

lemma params_dup: "params (matcher_call dup_matcher ''/y'') ''a'' = Some ''y''"
proof -
  have "percent_decode ''y'' = ''y''" by code_simp
  then show ?thesis
    by (simp add: matcher_call_def regex_match_dup Let_def)
       (simp add: dup_matcher_def sub_def str_def)
qed

definition shifted_pre :: "regex list" where
  "shifted_pre = [Bol, Chr CHR ''/'', NGroup (Seq (Chr CHR ''x'') Epsilon)]"

definition shifted_matcher :: matcher where
  "shifted_matcher = \<lparr>m_pattern = ''^/(?:x)(?:/([^'' @ [bs] @ ''/]+?))?/([^'' @ [bs] @ ''/]+?)''
                        @ [bs] @ ''/?$'',
       m_regex = \<lparr>re_ast = seq_of (shifted_pre @ [Rep 0 (Some 1) True (NGroup opt_foo_group)] @ dup_post),
                  re_marks = 2, re_icase = False\<rparr>,
       m_keys = [''a'', ''b'', ''c'']\<rparr>"

lemma percent_encode_shifted: "percent_encode ''/:a(?:x){/:b}/:c'' = ''/:a(?:x){/:b}/:c''"
  by code_simp

lemma find_separator_shifted: "find_separator ''/:a(?:x){/:b}/:c'' = CHR ''/''"
  by (simp add: find_separator_def find_char_def npos_def)

lemma make_pattern_shifted:
  "make_pattern ''/:a(?:x){/:b}/:c'' [] CHR ''/''
     = (''/(?:x)(?:/([^'' @ [bs] @ ''/]+?))?/([^'' @ [bs] @ ''/]+?)'', [''a'', ''b'', ''c''])"
  by code_simp

lemma make_pattern_top_shifted:
  "make_pattern_top ''/:a(?:x){/:b}/:c'' []
     = (''^/(?:x)(?:/([^'' @ [bs] @ ''/]+?))?/([^'' @ [bs] @ ''/]+?)'' @ [bs] @ ''/?$'',
        [''a'', ''b'', ''c''])"
  using make_pattern_top_eval [OF percent_encode_shifted find_separator_shifted make_pattern_shifted]
  by (simp add: bs_def)

lemma regex_parse_shifted:
  "regex_parse (''^/(?:x)(?:/([^'' @ [bs] @ ''/]+?))?/([^'' @ [bs] @ ''/]+?)'' @ [bs] @ ''/?$'')
     = Inr (seq_of (shifted_pre @ [Rep 0 (Some 1) True (NGroup opt_foo_group)] @ dup_post), 2)"
  by code_simp

lemma match_shifted: "match ''/:a(?:x){/:b}/:c'' case_sensitive = Inr shifted_matcher"
  using match_eval [OF make_pattern_top_shifted regex_parse_shifted, of case_sensitive]
  by (simp add: shifted_matcher_def)

lemma keys_upto_shifted:
  "keys_upto ''/:a(?:x){/:b}/:c'' (Suc 0) = [''a'']"
  "keys_upto ''/:a(?:x){/:b}/:c'' (Suc (Suc 0)) = [''a'', ''b'']"
proof -
  have "snd (snd (fold (mp_body ''/:a(?:x){/:b}/:c'' CHR ''/'')
      (take (Suc 0) (sregex_iterator ''/:a(?:x){/:b}/:c'' rx)) (0, [], []))) = [''a'']"
    by code_simp
  then show "keys_upto ''/:a(?:x){/:b}/:c'' (Suc 0) = [''a'']"
    by (simp only: keys_upto_eval [OF percent_encode_shifted find_separator_shifted])
  have "snd (snd (fold (mp_body ''/:a(?:x){/:b}/:c'' CHR ''/'')
      (take (Suc (Suc 0)) (sregex_iterator ''/:a(?:x){/:b}/:c'' rx)) (0, [], []))) = [''a'', ''b'']"
    by code_simp
  then show "keys_upto ''/:a(?:x){/:b}/:c'' (Suc (Suc 0)) = [''a'', ''b'']"
    by (simp only: keys_upto_eval [OF percent_encode_shifted find_separator_shifted])
qed

lemma tokens_shifted:
  "sub_matched (sub (tokens ''/:a(?:x){/:b}/:c'' ! Suc 0) optional_param_key_idx)"
  by code_simp

lemma regex_match_shifted:
  "regex_match (m_regex shifted_matcher) (percent_encode ''/x/z'')
     = Some \<lparr>position = 0, subs = [Some ''/x/z'', None, Some ''z'']\<rparr>"
  by code_simp

lemma skips_shifted:
  "skips (m_regex shifted_matcher) (percent_encode ''/x/z'') shifted_pre dup_post
     \<lparr>position = 0, subs = [Some ''/x/z'', None, Some ''z'']\<rparr>"
  by code_simp

lemma params_shifted: "params (matcher_call shifted_matcher ''/x/z'') ''b'' = Some ''z''"
proof -
  have "percent_decode ''z'' = ''z''" by code_simp
  then show ?thesis
    by (simp add: matcher_call_def regex_match_shifted Let_def)
       (simp add: shifted_matcher_def sub_def str_def percent_decode_Nil)
qed

text \<open>
  C9 as stated (when a match succeeds without the optional group taking part, each
  parameter declared inside that group is bound to the empty string) fails in two ways.
  A name declared again after the group keeps the later value: in \<open>{/:a}/:a\<close> the first
  token is the optional group and declares the key \<open>a\<close>; the match of \<open>/y\<close> skips the
  group, and \<open>a\<close> is bound to \<open>y\<close>.  And parameters are bound by position, which a custom
  sub-pattern without a capturing group shifts: in \<open>/:a(?:x){/:b}/:c\<close> the second token is
  the optional group and declares the key \<open>b\<close>; the match of \<open>/x/z\<close> skips the group, and
  \<open>b\<close> is bound to \<open>z\<close>.
\<close>

theorem absent_optional_group_counterexample:
  "match ''{/:a}/:a'' case_sensitive = Inr dup_matcher
   \<and> sub_matched (sub (tokens ''{/:a}/:a'' ! 0) optional_param_key_idx)
   \<and> keys_upto ''{/:a}/:a'' 0 = [] \<and> keys_upto ''{/:a}/:a'' (Suc 0) = [''a'']
   \<and> re_ast (m_regex dup_matcher)
        = seq_of ([Bol] @ [Rep 0 (Some 1) True (NGroup opt_foo_group)] @ dup_post)
   \<and> regex_match (m_regex dup_matcher) (percent_encode ''/y'')
        = Some \<lparr>position = 0, subs = [Some ''/y'', None, Some ''y'']\<rparr>
   \<and> skips (m_regex dup_matcher) (percent_encode ''/y'') [Bol] dup_post
        \<lparr>position = 0, subs = [Some ''/y'', None, Some ''y'']\<rparr>
   \<and> params (matcher_call dup_matcher ''/y'') ''a'' = Some ''y''
   \<and> match ''/:a(?:x){/:b}/:c'' case_sensitive = Inr shifted_matcher
   \<and> sub_matched (sub (tokens ''/:a(?:x){/:b}/:c'' ! Suc 0) optional_param_key_idx)
   \<and> keys_upto ''/:a(?:x){/:b}/:c'' (Suc 0) = [''a'']
   \<and> keys_upto ''/:a(?:x){/:b}/:c'' (Suc (Suc 0)) = [''a'', ''b'']
   \<and> re_ast (m_regex shifted_matcher)
        = seq_of (shifted_pre @ [Rep 0 (Some 1) True (NGroup opt_foo_group)] @ dup_post)
   \<and> regex_match (m_regex shifted_matcher) (percent_encode ''/x/z'')
        = Some \<lparr>position = 0, subs = [Some ''/x/z'', None, Some ''z'']\<rparr>
   \<and> skips (m_regex shifted_matcher) (percent_encode ''/x/z'') shifted_pre dup_post
        \<lparr>position = 0, subs = [Some ''/x/z'', None, Some ''z'']\<rparr>
   \<and> params (matcher_call shifted_matcher ''/x/z'') ''b'' = Some ''z''"
  using match_dup tokens_dup keys_upto_dup regex_match_dup skips_dup params_dup
    match_shifted tokens_shifted keys_upto_shifted regex_match_shifted skips_shifted params_shifted
  by (simp add: dup_matcher_def shifted_matcher_def)

lemma skipped_group_gives_empty_value:
  assumes out: "\<forall>g \<in> set (groups_in pre @ groups_in post). g - 1 \<noteq> i"
    and rm: "regex_match (m_regex m) (percent_encode x) = Some mr"
    and sk: "skips (m_regex m) (percent_encode x) pre post mr"
    and i: "i < length (m_keys m)"
    and last: "\<forall>k. i < k \<and> k < length (m_keys m) \<longrightarrow> m_keys m ! k \<noteq> m_keys m ! i"
  shows "matched (matcher_call m x) \<and> params (matcher_call m x) (m_keys m ! i) = Some []"
proof -
  from skips_unmatched [OF sk out] have "sub mr (i + 1) = None" by simp
  with matcher_call_last [OF rm i last] rm show ?thesis
    by (simp add: matcher_call_matched str_def percent_decode_Nil)
qed

lemma optional_group_in_matcher:
  assumes m: "match p sens = Inr m"
    and ok: "capturing_customs (percent_encode p)"
    and j: "j < length (tokens p)"
    and opt: "sub_matched (sub (tokens p ! j) optional_param_key_idx)"
    and ab: "length (keys_upto p j) < length (keys_upto p (Suc j))"
  shows "\<exists>pre r post.
          re_ast (m_regex m) = seq_of (pre @ [Rep 0 (Some 1) True (NGroup r)] @ post)
          \<and> groups_of r = [Suc (length (keys_upto p j))..<Suc (length (keys_upto p (Suc j)))]
          \<and> keys_upto p (Suc j) = take (length (keys_upto p (Suc j))) (m_keys m)
          \<and> (\<forall>x mr i. regex_match (m_regex m) (percent_encode x) = Some mr
                \<and> skips (m_regex m) (percent_encode x) pre post mr
                \<and> length (keys_upto p j) \<le> i \<and> i < length (keys_upto p (Suc j))
                \<and> (\<forall>k. i < k \<and> k < length (m_keys m) \<longrightarrow> m_keys m ! k \<noteq> m_keys m ! i)
              \<longrightarrow> matched (matcher_call m x)
                  \<and> params (matcher_call m x) (m_keys m ! i) = Some [])"
proof -
  let ?a = "length (keys_upto p j)"
  let ?b = "length (keys_upto p (Suc j))"
  from optional_group_structure [OF ok j opt ab] obtain pre r post where
    rp: "regex_parse (fst (make_pattern_top p []))
            = Inr (seq_of (pre @ [Rep 0 (Some 1) True (NGroup r)] @ post),
                   length (snd (make_pattern_top p [])))"
    and gp: "groups_in pre = [1..<Suc ?a]"
    and gr: "groups_of r = [Suc ?a..<Suc ?b]"
    and gq: "groups_in post = [Suc ?b..<Suc (length (snd (make_pattern_top p [])))]"
    and tk: "keys_upto p (Suc j) = take ?b (snd (make_pattern_top p []))"
    by blast
  have "make_pattern_top p [] = (fst (make_pattern_top p []), snd (make_pattern_top p []))"
    by simp
  from match_eval [OF this rp, of sens] m have
    re: "re_ast (m_regex m) = seq_of (pre @ [Rep 0 (Some 1) True (NGroup r)] @ post)"
    and keys: "m_keys m = snd (make_pattern_top p [])"
    by auto
  from tk have "?b = length (take ?b (snd (make_pattern_top p [])))" by simp
  then have ble: "?b \<le> length (m_keys m)" unfolding keys by simp
  have skip: "matched (matcher_call m x) \<and> params (matcher_call m x) (m_keys m ! i) = Some []"
    if rm: "regex_match (m_regex m) (percent_encode x) = Some mr"
      and sk: "skips (m_regex m) (percent_encode x) pre post mr"
      and ai: "?a \<le> i" and ib: "i < ?b"
      and last: "\<forall>k. i < k \<and> k < length (m_keys m) \<longrightarrow> m_keys m ! k \<noteq> m_keys m ! i"
    for x mr i
  proof -
    have out: "\<forall>g \<in> set (groups_in pre @ groups_in post). g - 1 \<noteq> i"
      using ai ib by (auto simp add: gp gq)
    from ib ble have "i < length (m_keys m)" by simp
    from skipped_group_gives_empty_value [OF out rm sk this last] show ?thesis .
  qed
  show ?thesis
  proof (intro exI conjI allI impI)
    show "re_ast (m_regex m) = seq_of (pre @ [Rep 0 (Some 1) True (NGroup r)] @ post)" by (rule re)
    show "groups_of r = [Suc ?a..<Suc ?b]" by (rule gr)
    show "keys_upto p (Suc j) = take ?b (m_keys m)" unfolding keys by (rule tk)
  next
    fix x mr i
    assume h: "regex_match (m_regex m) (percent_encode x) = Some mr
                \<and> skips (m_regex m) (percent_encode x) pre post mr
                \<and> ?a \<le> i \<and> i < ?b
                \<and> (\<forall>k. i < k \<and> k < length (m_keys m) \<longrightarrow> m_keys m ! k \<noteq> m_keys m ! i)"
    with skip [of x mr i] show "matched (matcher_call m x)"
      and "params (matcher_call m x) (m_keys m ! i) = Some []"
      by blast+
  qed
qed

text \<open>
  C9 amended.  In a pattern whose custom sub-patterns are each one capturing group on their
  own, an optional group \<open>{...}\<close> that declares parameters (token \<open>j\<close>, which declares the
  keys after the first \<open>keys_upto p j\<close> and among the first \<open>keys_upto p (j + 1)\<close>) compiles
  to a group \<open>(?:r)?\<close> that holds exactly the capturing groups of these keys; and when a
  match skips that group, each of these keys whose name is not declared again later in the
  key list is bound to the empty string.  In every compiled expression
  \<open>pre (?:r)? post\<close>, a match that skips the group binds to the empty string every key
  whose capturing group lies in \<open>r\<close> and nowhere else, unless its name is declared again
  later.  Concretely, the matcher compiled from \<open>{/:foo}\<close> matches \<open>""\<close> with \<open>foo\<close>
  bound to the empty string and \<open>/x\<close> with \<open>foo\<close> bound to \<open>x\<close>.
\<close>

theorem absent_optional_group_gives_empty_value:
  "match p sens = Inr m \<Longrightarrow>
   (capturing_customs (percent_encode p) \<and> j < length (tokens p)
      \<and> sub_matched (sub (tokens p ! j) optional_param_key_idx)
      \<and> length (keys_upto p j) < length (keys_upto p (Suc j))
    \<longrightarrow> (\<exists>pre r post.
          re_ast (m_regex m) = seq_of (pre @ [Rep 0 (Some 1) True (NGroup r)] @ post)
          \<and> groups_of r = [Suc (length (keys_upto p j))..<Suc (length (keys_upto p (Suc j)))]
          \<and> keys_upto p (Suc j) = take (length (keys_upto p (Suc j))) (m_keys m)
          \<and> (\<forall>x mr i. regex_match (m_regex m) (percent_encode x) = Some mr
                \<and> skips (m_regex m) (percent_encode x) pre post mr
                \<and> length (keys_upto p j) \<le> i \<and> i < length (keys_upto p (Suc j))
                \<and> (\<forall>k. i < k \<and> k < length (m_keys m) \<longrightarrow> m_keys m ! k \<noteq> m_keys m ! i)
              \<longrightarrow> matched (matcher_call m x)
                  \<and> params (matcher_call m x) (m_keys m ! i) = Some [])))
   \<and> (re_ast (m_regex m) = seq_of (pre @ [Rep 0 (Some 1) True (NGroup r)] @ post)
        \<and> Suc i \<in> set (groups_of r)
        \<and> (\<forall>g \<in> set (groups_in pre @ groups_in post). g - 1 \<noteq> i)
        \<and> regex_match (m_regex m) (percent_encode x) = Some mr
        \<and> skips (m_regex m) (percent_encode x) pre post mr
        \<and> i < length (m_keys m)
        \<and> (\<forall>k. i < k \<and> k < length (m_keys m) \<longrightarrow> m_keys m ! k \<noteq> m_keys m ! i)
      \<longrightarrow> matched (matcher_call m x) \<and> params (matcher_call m x) (m_keys m ! i) = Some [])
   \<and> match ''{/:foo}'' case_sensitive = Inr opt_foo_matcher
   \<and> matcher_call opt_foo_matcher [] = \<lparr>matched = True, params = [''foo'' \<mapsto> []]\<rparr>
   \<and> matcher_call opt_foo_matcher ''/x'' = \<lparr>matched = True, params = [''foo'' \<mapsto> ''x'']\<rparr>"
proof (intro conjI impI)
  assume "match p sens = Inr m"
    and "capturing_customs (percent_encode p) \<and> j < length (tokens p)
      \<and> sub_matched (sub (tokens p ! j) optional_param_key_idx)
      \<and> length (keys_upto p j) < length (keys_upto p (Suc j))"
  then show "\<exists>pre r post.
          re_ast (m_regex m) = seq_of (pre @ [Rep 0 (Some 1) True (NGroup r)] @ post)
          \<and> groups_of r = [Suc (length (keys_upto p j))..<Suc (length (keys_upto p (Suc j)))]
          \<and> keys_upto p (Suc j) = take (length (keys_upto p (Suc j))) (m_keys m)
          \<and> (\<forall>x mr i. regex_match (m_regex m) (percent_encode x) = Some mr
                \<and> skips (m_regex m) (percent_encode x) pre post mr
                \<and> length (keys_upto p j) \<le> i \<and> i < length (keys_upto p (Suc j))
                \<and> (\<forall>k. i < k \<and> k < length (m_keys m) \<longrightarrow> m_keys m ! k \<noteq> m_keys m ! i)
              \<longrightarrow> matched (matcher_call m x)
                  \<and> params (matcher_call m x) (m_keys m ! i) = Some [])"
    using optional_group_in_matcher [of p sens m j] by blast
next
  assume a: "re_ast (m_regex m) = seq_of (pre @ [Rep 0 (Some 1) True (NGroup r)] @ post)
        \<and> Suc i \<in> set (groups_of r)
        \<and> (\<forall>g \<in> set (groups_in pre @ groups_in post). g - 1 \<noteq> i)
        \<and> regex_match (m_regex m) (percent_encode x) = Some mr
        \<and> skips (m_regex m) (percent_encode x) pre post mr
        \<and> i < length (m_keys m)
        \<and> (\<forall>k. i < k \<and> k < length (m_keys m) \<longrightarrow> m_keys m ! k \<noteq> m_keys m ! i)"
  then have "matched (matcher_call m x) \<and> params (matcher_call m x) (m_keys m ! i) = Some []"
    using skipped_group_gives_empty_value [of pre post i m x mr] by blast
  then show "matched (matcher_call m x)" and "params (matcher_call m x) (m_keys m ! i) = Some []"
    by simp_all
qed (rule match_opt_foo matcher_call_opt_foo_empty matcher_call_opt_foo_x)+

theorem absent_optional_group_gives_empty_value_witness:
  "match ''{/:foo}'' case_sensitive = Inr opt_foo_matcher
   \<and> capturing_customs (percent_encode ''{/:foo}'')
   \<and> sub_matched (sub (tokens ''{/:foo}'' ! 0) optional_param_key_idx)
   \<and> keys_upto ''{/:foo}'' 0 = [] \<and> keys_upto ''{/:foo}'' (Suc 0) = [''foo'']
   \<and> (\<exists>pre r post.
        re_ast (m_regex opt_foo_matcher) = seq_of (pre @ [Rep 0 (Some 1) True (NGroup r)] @ post)
        \<and> groups_of r = [1]
        \<and> (\<forall>x mr. regex_match (m_regex opt_foo_matcher) (percent_encode x) = Some mr
                \<and> skips (m_regex opt_foo_matcher) (percent_encode x) pre post mr
              \<longrightarrow> params (matcher_call opt_foo_matcher x) ''foo'' = Some []))
   \<and> re_ast (m_regex opt_foo_matcher)
        = seq_of ([Bol] @ [Rep 0 (Some 1) True (NGroup opt_foo_group)] @ opt_foo_post)
   \<and> regex_match (m_regex opt_foo_matcher) (percent_encode [])
        = Some \<lparr>position = 0, subs = [Some [], None]\<rparr>
   \<and> skips (m_regex opt_foo_matcher) (percent_encode []) [Bol] opt_foo_post
        \<lparr>position = 0, subs = [Some [], None]\<rparr>
   \<and> matched (matcher_call opt_foo_matcher [])
   \<and> params (matcher_call opt_foo_matcher []) ''foo'' = Some []"
proof -
  note inst = absent_optional_group_gives_empty_value [OF match_opt_foo,
      of 0 "[Bol]" opt_foo_group opt_foo_post 0 "[]" "\<lparr>position = 0, subs = [Some [], None]\<rparr>"]
  have ast: "re_ast (m_regex opt_foo_matcher)
        = seq_of ([Bol] @ [Rep 0 (Some 1) True (NGroup opt_foo_group)] @ opt_foo_post)"
    by (simp add: opt_foo_matcher_def opt_foo_ast_parts)
  have keys: "m_keys opt_foo_matcher = [''foo'']" by (simp add: opt_foo_matcher_def)
  from inst capturing_customs_opt_foo tokens_opt_foo keys_upto_opt_foo
  obtain pre r post where
    s: "re_ast (m_regex opt_foo_matcher) = seq_of (pre @ [Rep 0 (Some 1) True (NGroup r)] @ post)"
    and gr: "groups_of r = [Suc (length (keys_upto ''{/:foo}'' 0))..<Suc (length (keys_upto ''{/:foo}'' (Suc 0)))]"
    and sk: "\<forall>x mr i. regex_match (m_regex opt_foo_matcher) (percent_encode x) = Some mr
                \<and> skips (m_regex opt_foo_matcher) (percent_encode x) pre post mr
                \<and> length (keys_upto ''{/:foo}'' 0) \<le> i \<and> i < length (keys_upto ''{/:foo}'' (Suc 0))
                \<and> (\<forall>k. i < k \<and> k < length (m_keys opt_foo_matcher)
                      \<longrightarrow> m_keys opt_foo_matcher ! k \<noteq> m_keys opt_foo_matcher ! i)
              \<longrightarrow> matched (matcher_call opt_foo_matcher x)
                  \<and> params (matcher_call opt_foo_matcher x) (m_keys opt_foo_matcher ! i) = Some []"
    by auto
  have a: "\<exists>pre r post.
        re_ast (m_regex opt_foo_matcher) = seq_of (pre @ [Rep 0 (Some 1) True (NGroup r)] @ post)
        \<and> groups_of r = [1]
        \<and> (\<forall>x mr. regex_match (m_regex opt_foo_matcher) (percent_encode x) = Some mr
                \<and> skips (m_regex opt_foo_matcher) (percent_encode x) pre post mr
              \<longrightarrow> params (matcher_call opt_foo_matcher x) ''foo'' = Some [])"
  proof (intro exI conjI allI impI)
    show "re_ast (m_regex opt_foo_matcher) = seq_of (pre @ [Rep 0 (Some 1) True (NGroup r)] @ post)"
      by (rule s)
    show "groups_of r = [1]" using gr by (simp add: keys_upto_opt_foo)
  next
    fix x mr
    assume "regex_match (m_regex opt_foo_matcher) (percent_encode x) = Some mr
                \<and> skips (m_regex opt_foo_matcher) (percent_encode x) pre post mr"
    with sk [rule_format, of x mr 0] show "params (matcher_call opt_foo_matcher x) ''foo'' = Some []"
      by (auto simp add: keys_upto_opt_foo keys)
  qed
  have g: "Suc 0 \<in> set (groups_of opt_foo_group)"
    "\<forall>g \<in> set (groups_in [Bol] @ groups_in opt_foo_post). g - 1 \<noteq> 0"
    by (simp_all add: opt_foo_group_def opt_foo_post_def groups_in_simps)
  from inst ast g regex_match_opt_foo_empty skips_opt_foo keys
  have b: "matched (matcher_call opt_foo_matcher [])
      \<and> params (matcher_call opt_foo_matcher []) ''foo'' = Some []"
    by simp
  from a b match_opt_foo capturing_customs_opt_foo tokens_opt_foo(2) keys_upto_opt_foo ast
    regex_match_opt_foo_empty skips_opt_foo
  show ?thesis by simp
qed

end
